theory Spec2Isabelle
  imports Complex_Main "HOL-Library.Sublist" "HOL-Library.Word"
begin

section \<open>The document store: \<open>useProjectState\<close>\<close>

text \<open>
  \<^verbatim>\<open>interface Screen { id: string; name: string; html: string; css: string; x: number; y: number }\<close>
  The fields carry the prefix \<open>scr_\<close> because \<open>id\<close> is the identity function of HOL.
  Coordinates are integers: every coordinate the store computes is \<open>maxX + 50\<close> or
  \<open>50\<close>, and no property below depends on a fractional coordinate. The interface is
  not checked when the program runs: \<open>upsertScreen\<close> stores what it is given, and
  the handler gives it the output object of a tool, which need not have an \<open>id\<close>.
  \<open>scr_id\<close> is \<open>None\<close> for a stored screen without that property.
\<close>

record screen =
  scr_id :: "string option"
  scr_name :: string
  scr_html :: string
  scr_css :: string
  scr_x :: int
  scr_y :: int

text \<open>
  \<^verbatim>\<open>Partial<Screen> & { id: string }\<close>: \<open>None\<close> is an absent property. The type
  asks for an \<open>id\<close>, but the argument the handler casts to it may lack one, so
  \<open>p_id\<close> is optional too. No caller passes a property whose value is
  \<open>undefined\<close>.
\<close>

record partial_screen =
  p_id :: "string option"
  p_name :: "string option"
  p_html :: "string option"
  p_css :: "string option"
  p_x :: "int option"
  p_y :: "int option"

text \<open>\<^verbatim>\<open>options?: { skipHistory?: boolean }\<close>\<close>

record upsert_options =
  skipHistory :: "bool option"

text \<open>
  Arrays of screens are JavaScript objects: \<open>screens.value\<close> and every
  \<open>HistoryItem.screens\<close> hold a reference, and \<open>upsertScreen\<close> writes into the live
  array in place. The store therefore keeps the arrays in an explicit heap, addressed by
  natural numbers, with a bump allocator. Screen objects themselves are never written in
  place by any function of the repository (a merge builds a new object), so they are
  values.
\<close>

type_synonym addr = nat

record history_item =
  timestamp :: int
  hi_screens :: addr

record project_state =
  arrays :: "addr \<Rightarrow> screen list"
  next_addr :: addr
  screens :: addr
  history :: "history_item list"
  editingScreenId :: "string option"
  isDesigning :: bool

text \<open>A JavaScript number used as an array index.\<close>

datatype js_number = Num rat | NaN | PosInfinity | NegInfinity

text \<open>
  \<open>xs[index]\<close> on an array: the element when \<open>index\<close> is an integer in
  \<open>0 .. length - 1\<close>, \<open>undefined\<close> (here \<open>None\<close>) for every other number.
\<close>

fun array_get :: "'a list \<Rightarrow> js_number \<Rightarrow> 'a option" where
  "array_get xs (Num q) =
     (if q = of_int \<lfloor>q\<rfloor> \<and> 0 \<le> q \<and> nat \<lfloor>q\<rfloor> < length xs
      then Some (xs ! nat \<lfloor>q\<rfloor>) else None)"
| "array_get xs NaN = None"
| "array_get xs PosInfinity = None"
| "array_get xs NegInfinity = None"

text \<open>\<open>Array.prototype.findIndex\<close>; \<open>None\<close> stands for the result \<open>-1\<close>.\<close>

fun findIndex :: "('a \<Rightarrow> bool) \<Rightarrow> 'a list \<Rightarrow> nat option" where
  "findIndex P [] = None"
| "findIndex P (x # xs) =
     (if P x then Some 0 else map_option Suc (findIndex P xs))"

text \<open>The array a reference points to, and the live screen set \<open>screens.value\<close>.\<close>

definition live_screens :: "project_state \<Rightarrow> screen list" where
  "live_screens st = arrays st (screens st)"

definition snapshot_screens :: "project_state \<Rightarrow> history_item \<Rightarrow> screen list" where
  "snapshot_screens st h = arrays st (hi_screens h)"

text \<open>
  \<open>JSON.parse(JSON.stringify(a))\<close> on an array of screens: a new array, at a fresh
  address, with the same contents (strings and integers survive the round trip).
\<close>

definition json_clone :: "addr \<Rightarrow> project_state \<Rightarrow> addr \<times> project_state" where
  "json_clone a st =
     (next_addr st,
      st\<lparr>arrays := (arrays st)(next_addr st := arrays st a),
         next_addr := Suc (next_addr st)\<rparr>)"

text \<open>\<open>!options?.skipHistory\<close> is false only for \<open>{ skipHistory: true }\<close>.\<close>

definition skips_history :: "upsert_options option \<Rightarrow> bool" where
  "skips_history options =
     (case options of
        None \<Rightarrow> False
      | Some opts \<Rightarrow> (case skipHistory opts of None \<Rightarrow> False | Some b \<Rightarrow> b))"

text \<open>\<open>{ ...old, ...screen }\<close>: a provided property overwrites, an absent one is kept.\<close>

definition merge_screen :: "screen \<Rightarrow> partial_screen \<Rightarrow> screen" where
  "merge_screen old p =
     \<lparr>scr_id = (case p_id p of None \<Rightarrow> scr_id old | Some v \<Rightarrow> Some v),
      scr_name = (case p_name p of None \<Rightarrow> scr_name old | Some v \<Rightarrow> v),
      scr_html = (case p_html p of None \<Rightarrow> scr_html old | Some v \<Rightarrow> v),
      scr_css = (case p_css p of None \<Rightarrow> scr_css old | Some v \<Rightarrow> v),
      scr_x = (case p_x p of None \<Rightarrow> scr_x old | Some v \<Rightarrow> v),
      scr_y = (case p_y p of None \<Rightarrow> scr_y old | Some v \<Rightarrow> v)\<rparr>"

text \<open>
  \<open>{ name: 'Untitled Screen', html: '', css: '', x: maxX + 50, y: 50, ...screen }\<close>
\<close>

definition new_screen :: "int \<Rightarrow> partial_screen \<Rightarrow> screen" where
  "new_screen maxX p =
     merge_screen
       \<lparr>scr_id = None, scr_name = ''Untitled Screen'', scr_html = '''', scr_css = '''',
        scr_x = maxX + 50, scr_y = 50\<rparr> p"

text \<open>\<open>screens.value.reduce((max, s) => Math.max(max, s.x + 400), 0)\<close>\<close>

definition max_x :: "screen list \<Rightarrow> int" where
  "max_x xs = foldl (\<lambda>m s. max m (scr_x s + 400)) 0 xs"

text \<open>\<open>history.value.push({ timestamp: Date.now(), screens: <clone of screens.value> })\<close>\<close>

definition push_history :: "int \<Rightarrow> project_state \<Rightarrow> project_state" where
  "push_history now st =
     (case json_clone (screens st) st of
        (a, st') \<Rightarrow> st'\<lparr>history := history st' @ [\<lparr>timestamp = now, hi_screens = a\<rparr>]\<rparr>)"

text \<open>Writing the live array in place.\<close>

definition set_live :: "screen list \<Rightarrow> project_state \<Rightarrow> project_state" where
  "set_live xs st = st\<lparr>arrays := (arrays st)(screens st := xs)\<rparr>"

text \<open>
  \<open>upsertScreen(screen, options)\<close>; \<open>now\<close> is the value \<open>Date.now()\<close> returns.
  \<open>s.id === screen.id\<close> also holds between two absent ids.
\<close>

definition upsertScreen ::
  "int \<Rightarrow> partial_screen \<Rightarrow> upsert_options option \<Rightarrow> project_state \<Rightarrow> project_state" where
  "upsertScreen now scr options st =
     (let st1 = (if \<not> skips_history options then push_history now st else st);
          cur = live_screens st1
      in case findIndex (\<lambda>s. scr_id s = p_id scr) cur of
           Some i \<Rightarrow> set_live (cur[i := merge_screen (cur ! i) scr]) st1
         | None \<Rightarrow> set_live (cur @ [new_screen (max_x cur) scr]) st1)"

text \<open>
  \<open>restoreVersion(index)\<close>: a \<open>HistoryItem\<close> is an object, hence truthy, so the
  test \<open>if (history.value[index])\<close> asks whether the element exists.
\<close>

definition restoreVersion :: "js_number \<Rightarrow> project_state \<Rightarrow> project_state" where
  "restoreVersion index st =
     (case array_get (history st) index of
        Some h \<Rightarrow> (case json_clone (hi_screens h) st of (a, st') \<Rightarrow> st'\<lparr>screens := a\<rparr>)
      | None \<Rightarrow> st)"

definition setEditingScreenId :: "string option \<Rightarrow> project_state \<Rightarrow> project_state" where
  "setEditingScreenId v st = st\<lparr>editingScreenId := v\<rparr>"

definition setIsDesigning :: "bool \<Rightarrow> project_state \<Rightarrow> project_state" where
  "setIsDesigning v st = st\<lparr>isDesigning := v\<rparr>"

text \<open>
  The state \<open>useState\<close> and the module-level refs start from: one welcome screen, an
  empty history, nothing being edited.
\<close>

definition welcome_html :: string where
  "welcome_html =
     [CHR 0x0A] @
     ''        <div style=\"padding: 20px; text-align: center; height: 100%; display: flex; flex-direction: column; justify-content: center; align-items: center; font-family: sans-serif;\">'' @ [CHR 0x0A] @
     ''          <h1 style=\"font-size: 24px; margin-bottom: 10px;\">Welcome to App Club Design</h1>'' @ [CHR 0x0A] @
     ''          <p style=\"color: #666;\">Ask the AI to design something for you!</p>'' @ [CHR 0x0A] @
     ''        </div>'' @ [CHR 0x0A] @
     ''      ''"

definition welcome_screen :: screen where
  "welcome_screen =
     \<lparr>scr_id = Some ''welcome'', scr_name = ''Welcome Screen'', scr_html = welcome_html,
      scr_css = '''', scr_x = 100, scr_y = 100\<rparr>"

definition initial_project :: project_state where
  "initial_project =
     \<lparr>arrays = (\<lambda>_. [])(0 := [welcome_screen]), next_addr = 1, screens = 0,
      history = [], editingScreenId = None, isDesigning = False\<rparr>"

section \<open>The tool event handler: \<open>createToolEventHandler\<close>\<close>

text \<open>\<^verbatim>\<open>state: 'call' | 'result' | 'error'\<close>\<close>

datatype inv_state = Call | Result | Error

text \<open>
  \<open>chunk.input\<close> is a \<^verbatim>\<open>Record<string, unknown>\<close>; the handler reads two of its
  properties, each behind \<open>typeof ... === 'string'\<close>. \<open>None\<close>: the property is
  absent or not a string.
\<close>

record tool_input =
  in_id :: "string option"
  in_name :: "string option"

text \<open>
  \<open>chunk.output\<close> is cast to \<^verbatim>\<open>Record<string, unknown> | undefined\<close> and then, by the
  recorded tool name and without a check, to
  \<^verbatim>\<open>{ id: string; name?: string; html?: string; css?: string }\<close> or to
  \<^verbatim>\<open>{ index: number }\<close>. The model keeps of the output object the properties the
  handler and the store read: \<open>out_fields\<close> holds \<open>id\<close>, \<open>name\<close>,
  \<open>html\<close>, \<open>css\<close>, \<open>x\<close> and \<open>y\<close>, and \<open>out_index\<close> holds
  \<open>index\<close>; each is \<open>None\<close> when the object has no such property. So the output
  of \<open>restoreVersion\<close> is an object with an index and no id, and the output of
  \<open>generateImage\<close> one with neither. A property of another name has no effect on what
  is modelled; a property of these names with a value of another type is not covered.
\<close>

record tool_output =
  out_fields :: partial_screen
  out_index :: "js_number option"

text \<open>
  \<^verbatim>\<open>interface ToolInvocation\<close>; the field \<open>state\<close> is \<open>inv_state\<close> here.
\<close>

record tool_invocation =
  toolCallId :: string
  toolName :: "string option"
  inv_state :: inv_state
  args :: "tool_input option"
  result :: "tool_output option"
  errorText :: "string option"

text \<open>
  \<^verbatim>\<open>interface Message\<close>, without \<open>id\<close> and \<open>role\<close>, which the handler never reads.
  \<open>toolInvocations\<close> is an optional property.
\<close>

record message =
  content :: string
  toolInvocations :: "tool_invocation list option"

text \<open>
  \<^verbatim>\<open>interface SSEChunk { type: string; [key: string]: unknown }\<close>, one constructor for
  each \<open>type\<close> the handler knows, with the properties it reads from it, and
  \<open>OtherChunk\<close> for every other \<open>type\<close>. The two properties of
  \<open>data-editing-start\<close> are \<open>None\<close> when absent or not a string.
\<close>

datatype chunk =
    TextDelta string
  | ToolInputStart string string
  | DataEditingStart "string option" "string option"
  | ToolInputAvailable string string "tool_input option"
  | ToolOutputAvailable string "tool_output option"
  | ToolOutputError string string
  | StreamError string
  | OtherChunk string

text \<open>
  \<^verbatim>\<open>interface ToolEventHandlerDeps\<close>: the message being built, the map from call ids
  to screen ids, and the project state its four actions work on.
\<close>

record handler_state =
  assistantMessage :: message
  toolCallIdToScreenId :: "string \<rightharpoonup> string"
  project :: project_state

text \<open>Truthiness of an optional string: \<open>undefined\<close> and \<open>''\<close> are falsy.\<close>

definition truthy :: "string option \<Rightarrow> bool" where
  "truthy v = (case v of None \<Rightarrow> False | Some s \<Rightarrow> s \<noteq> [])"

definition created_invocation :: "string \<Rightarrow> string option \<Rightarrow> tool_invocation" where
  "created_invocation cid tn =
     \<lparr>toolCallId = cid, toolName = tn, inv_state = Call, args = None, result = None,
      errorText = None\<rparr>"

text \<open>
  \<open>getOrCreateInvocation(toolCallId, toolName?)\<close> returns the invocation and the
  message after the call. \<open>find\<close> yields the first entry with the id; when
  \<open>toolInvocations\<close> is \<open>undefined\<close>, \<open>?.find\<close> yields \<open>undefined\<close> and
  \<open>?.push\<close> does nothing, so the created invocation is returned but not stored.
\<close>

definition getOrCreateInvocation ::
  "string \<Rightarrow> string option \<Rightarrow> message \<Rightarrow> tool_invocation \<times> message" where
  "getOrCreateInvocation cid tn msg =
     (case toolInvocations msg of
        None \<Rightarrow> (created_invocation cid tn, msg)
      | Some invs \<Rightarrow>
          (case findIndex (\<lambda>i. toolCallId i = cid) invs of
             Some k \<Rightarrow>
               (let existing = invs ! k;
                    existing' = (if truthy tn \<and> \<not> truthy (toolName existing)
                                 then existing\<lparr>toolName := tn\<rparr> else existing)
                in (existing', msg\<lparr>toolInvocations := Some (invs[k := existing'])\<rparr>))
           | None \<Rightarrow>
               (created_invocation cid tn,
                msg\<lparr>toolInvocations := Some (invs @ [created_invocation cid tn])\<rparr>)))"

text \<open>
  The handler writes fields of the object \<open>getOrCreateInvocation\<close> returned. That
  object is the first entry of \<open>toolInvocations\<close> with its id, so the write goes
  there; without a list the object is not reachable from the message.
\<close>

definition write_invocation :: "tool_invocation \<Rightarrow> message \<Rightarrow> message" where
  "write_invocation ivc msg =
     (case toolInvocations msg of
        None \<Rightarrow> msg
      | Some invs \<Rightarrow>
          (case findIndex (\<lambda>i. toolCallId i = toolCallId ivc) invs of
             Some k \<Rightarrow> msg\<lparr>toolInvocations := Some (invs[k := ivc])\<rparr>
           | None \<Rightarrow> msg))"

definition placeholder :: "string \<Rightarrow> string \<Rightarrow> partial_screen" where
  "placeholder sid nm =
     \<lparr>p_id = Some sid, p_name = Some nm, p_html = None, p_css = None, p_x = None, p_y = None\<rparr>"

definition skip_history :: "upsert_options option" where
  "skip_history = Some \<lparr>skipHistory = Some True\<rparr>"

text \<open>
  The three statements that end an \<open>upsertScreen\<close> call:
  \<open>toolCallIdToScreenId.delete(id); setEditingScreenId(null); setIsDesigning(false)\<close>.
\<close>

definition clear_editing :: "string \<Rightarrow> handler_state \<Rightarrow> handler_state" where
  "clear_editing cid hs =
     hs\<lparr>toolCallIdToScreenId := (toolCallIdToScreenId hs)(cid := None),
        project := setIsDesigning False (setEditingScreenId None (project hs))\<rparr>"

text \<open>
  \<open>toolCallIdToScreenId.set(id, screenId); setEditingScreenId(screenId);
  upsertScreen({ id: screenId, name }, { skipHistory: true })\<close>
\<close>

definition start_editing ::
  "int \<Rightarrow> string \<Rightarrow> string \<Rightarrow> string \<Rightarrow> handler_state \<Rightarrow> handler_state" where
  "start_editing now cid sid nm hs =
     hs\<lparr>toolCallIdToScreenId := (toolCallIdToScreenId hs)(cid \<mapsto> sid),
        project := upsertScreen now (placeholder sid nm) skip_history
                     (setEditingScreenId (Some sid) (project hs))\<rparr>"

text \<open>
  \<open>handleChunk(chunk)\<close>; \<open>now\<close> is what \<open>Date.now()\<close> returns during the call.
  The handler awaits \<open>nextTick()\<close> after a placeholder upsert; the stream parser awaits
  the handler, so the chunks are handled one after the other and the model is
  sequential. An output of \<open>None\<close> is \<open>undefined\<close> or another falsy value, on
  which \<open>&& output\<close> fails. The casts are not checked: for an invocation named
  \<open>upsertScreen\<close> every output object is upserted, with or without an id, and for one
  named \<open>restoreVersion\<close> the index read from an object without one is
  \<open>undefined\<close>, at which \<open>history.value\<close> has no item, so that
  \<open>restoreVersion\<close> changes nothing.
\<close>

fun handleChunk :: "int \<Rightarrow> chunk \<Rightarrow> handler_state \<Rightarrow> handler_state" where
  "handleChunk now (TextDelta delta) hs =
     hs\<lparr>assistantMessage :=
       (assistantMessage hs)\<lparr>content := content (assistantMessage hs) @ delta\<rparr>\<rparr>"
| "handleChunk now (ToolInputStart cid tn) hs =
     (case getOrCreateInvocation cid (Some tn) (assistantMessage hs) of
        (ivc, msg) \<Rightarrow>
          (let hs1 = hs\<lparr>assistantMessage := msg\<rparr>
           in if tn = ''upsertScreen''
              then hs1\<lparr>project := setIsDesigning True (project hs1)\<rparr>
              else hs1))"
| "handleChunk now (DataEditingStart screenId cid) hs =
     (case (screenId, cid) of
        (Some sid, Some c) \<Rightarrow> start_editing now c sid ''Designing...'' hs
      | _ \<Rightarrow> hs)"
| "handleChunk now (ToolInputAvailable cid tn input) hs =
     (case getOrCreateInvocation cid (Some tn) (assistantMessage hs) of
        (ivc, msg) \<Rightarrow>
          (let ivc' = ivc\<lparr>args := input, inv_state := Call\<rparr>;
               hs1 = hs\<lparr>assistantMessage := write_invocation ivc' msg\<rparr>
           in if toolName ivc' = Some ''upsertScreen''
              then (case input of
                      Some i \<Rightarrow>
                        (case in_id i of
                           Some sid \<Rightarrow>
                             start_editing now cid sid
                               (case in_name i of Some n \<Rightarrow> n | None \<Rightarrow> ''Untitled Screen'')
                               hs1
                         | None \<Rightarrow> hs1)
                    | None \<Rightarrow> hs1)
              else hs1))"
| "handleChunk now (ToolOutputAvailable cid output) hs =
     (case getOrCreateInvocation cid None (assistantMessage hs) of
        (ivc, msg) \<Rightarrow>
          (let ivc' = ivc\<lparr>inv_state := Result, result := output\<rparr>;
               hs1 = hs\<lparr>assistantMessage := write_invocation ivc' msg\<rparr>
           in case output of
                None \<Rightarrow> hs1
              | Some out \<Rightarrow>
                  if toolName ivc' = Some ''upsertScreen''
                  then clear_editing cid
                         (hs1\<lparr>project := upsertScreen now (out_fields out) None (project hs1)\<rparr>)
                  else if toolName ivc' = Some ''restoreVersion''
                  then (case out_index out of
                          Some index \<Rightarrow> hs1\<lparr>project := restoreVersion index (project hs1)\<rparr>
                        | None \<Rightarrow> hs1)
                  else hs1))"
| "handleChunk now (ToolOutputError cid err) hs =
     (case getOrCreateInvocation cid None (assistantMessage hs) of
        (ivc, msg) \<Rightarrow>
          (let ivc' = ivc\<lparr>inv_state := Error, errorText := Some err\<rparr>;
               hs1 = hs\<lparr>assistantMessage := write_invocation ivc' msg\<rparr>
           in if toolName ivc' = Some ''upsertScreen''
              then clear_editing cid hs1
              else hs1))"
| "handleChunk now (StreamError err) hs = hs"
| "handleChunk now (OtherChunk ty) hs = hs"

text \<open>The chunks of a stream, each with the clock reading at its handling.\<close>

fun handleChunks :: "(int \<times> chunk) list \<Rightarrow> handler_state \<Rightarrow> handler_state" where
  "handleChunks [] hs = hs"
| "handleChunks ((now, c) # cs) hs = handleChunks cs (handleChunk now c hs)"

text \<open>The entry of a message for a call id: what \<open>find\<close> returns.\<close>

definition find_invocation :: "string \<Rightarrow> message \<Rightarrow> tool_invocation option" where
  "find_invocation cid msg =
     (case toolInvocations msg of
        None \<Rightarrow> None
      | Some invs \<Rightarrow> map_option (\<lambda>k. invs ! k) (findIndex (\<lambda>i. toolCallId i = cid) invs))"

section \<open>The stream parser: \<open>parseSSEStream\<close>\<close>

text \<open>
  A JavaScript string is a \<open>string\<close>; a character stands for one code unit, so the
  text is restricted to the code units below 256. The bytes of a chunk are 8-bit words.
  \<open>TextDecoder\<close> belongs to the platform, not to the repository: the parser takes
  the decoder as a parameter, a function from the decoder's state and a chunk of bytes
  to the new state and the decoded text, as \<open>decoder.decode(value, { stream: true })\<close>
  is.
\<close>

type_synonym byte = "8 word"

type_synonym 'd decoder = "'d \<Rightarrow> byte list \<Rightarrow> 'd \<times> string"

text \<open>
  What the platform promises of a streaming decoder: decoding a chunk in two pieces
  gives the same text as decoding it at once.
\<close>

definition streaming_decoder :: "'d decoder \<Rightarrow> bool" where
  "streaming_decoder dec \<longleftrightarrow>
     (\<forall>d. dec d [] = (d, [])) \<and>
     (\<forall>d xs ys. dec d (xs @ ys) =
        (case dec d xs of (d1, t1) \<Rightarrow> (case dec d1 ys of (d2, t2) \<Rightarrow> (d2, t1 @ t2))))"

text \<open>A decoder for the witnesses: every byte is the code unit of the same number.\<close>

definition latin1_decoder :: "unit decoder" where
  "latin1_decoder d bs = (d, map (\<lambda>b. char_of (unat b)) bs)"

definition newline :: char where
  "newline = CHR 0x0A"

definition carriage_return :: char where
  "carriage_return = CHR 0x0D"

text \<open>The event separator \<open>'\n\n'\<close>.\<close>

definition separator :: string where
  "separator = [newline, newline]"

text \<open>\<open>.replaceAll('\r', '')\<close>\<close>

definition strip_cr :: "string \<Rightarrow> string" where
  "strip_cr text = filter (\<lambda>c. c \<noteq> carriage_return) text"

text \<open>\<open>xs.indexOf(pat)\<close>; \<open>None\<close> stands for the result \<open>-1\<close>.\<close>

fun indexOf :: "'a list \<Rightarrow> 'a list \<Rightarrow> nat option" where
  "indexOf pat [] = (if pat = [] then Some 0 else None)"
| "indexOf pat (x # xs) =
     (if prefix pat (x # xs) then Some 0 else map_option Suc (indexOf pat xs))"

text \<open>\<open>s.split(c)\<close> for a separator of one character; \<open>''.split(c)\<close> is \<open>['']\<close>.\<close>

fun split_on :: "char \<Rightarrow> string \<Rightarrow> string list" where
  "split_on c [] = [[]]"
| "split_on c (x # xs) =
     (if x = c then [] # split_on c xs
      else (case split_on c xs of
              l # ls \<Rightarrow> (x # l) # ls
            | [] \<Rightarrow> [[x]]))"

text \<open>\<open>lines.join(sep)\<close>\<close>

fun join :: "string \<Rightarrow> string list \<Rightarrow> string" where
  "join sep [] = []"
| "join sep [l] = l"
| "join sep (l # m # ls) = l @ sep @ join sep (m # ls)"

text \<open>
  White space and line terminators of JavaScript among the code units below 256:
  what \<open>trimStart\<close> removes and what \<open>\s\<close> matches.
\<close>

definition is_js_space :: "char \<Rightarrow> bool" where
  "is_js_space c \<longleftrightarrow>
     c \<in> {CHR 0x09, CHR 0x0A, CHR 0x0B, CHR 0x0C, CHR 0x0D, CHR 0x20, CHR 0xA0}"

definition trimStart :: "string \<Rightarrow> string" where
  "trimStart s = dropWhile is_js_space s"

text \<open>
  The payload of one raw event: its lines that start with \<open>data:\<close>, each without that
  prefix and trimmed at the start, joined by newlines. \<open>None\<close>: no such line
  (\<open>dataLines.length === 0\<close>).
\<close>

definition event_data :: "string \<Rightarrow> string option" where
  "event_data rawEvent =
     (let dataLines = filter (prefix ''data:'') (split_on newline rawEvent)
      in if dataLines = [] then None
         else Some (join [newline] (map (\<lambda>l. trimStart (drop (length ''data:'') l)) dataLines)))"

text \<open>
  The inner loop \<open>while (!streamDone)\<close> on the buffer: the payloads handed to
  \<open>JSON.parse\<close> and \<open>onChunk\<close>, in order, the buffer that is left, and
  \<open>streamDone\<close>.
\<close>

function process_events :: "string \<Rightarrow> string list \<times> string \<times> bool" where
  "process_events buffer =
     (case indexOf separator buffer of
        None \<Rightarrow> ([], buffer, False)
      | Some separatorIndex \<Rightarrow>
          (case event_data (take separatorIndex buffer) of
             None \<Rightarrow> process_events (drop (separatorIndex + 2) buffer)
           | Some data \<Rightarrow>
               if data = ''[DONE]'' then ([], drop (separatorIndex + 2) buffer, True)
               else (case process_events (drop (separatorIndex + 2) buffer) of
                       (payloads, buffer', streamDone) \<Rightarrow> (data # payloads, buffer', streamDone))))"
  by pat_completeness auto
termination
proof (relation "measure length")
  show "wf (measure length)" by simp
next
  fix buffer :: string and separatorIndex :: nat
  assume found: "indexOf separator buffer = Some separatorIndex"
  have "buffer \<noteq> []"
    using found by (cases buffer) (simp_all add: separator_def)
  then show "(drop (separatorIndex + 2) buffer, buffer) \<in> measure length"
    by simp
next
  fix buffer :: string and separatorIndex :: nat and data :: string
  assume found: "indexOf separator buffer = Some separatorIndex"
  have "buffer \<noteq> []"
    using found by (cases buffer) (simp_all add: separator_def)
  then show "(drop (separatorIndex + 2) buffer, buffer) \<in> measure length"
    by simp
qed

text \<open>The equation of \<open>process_events\<close> is unfolded by hand, never by the simplifier.\<close>

declare process_events.simps [simp del]

text \<open>
  The outer loop \<open>while (!done)\<close>: one element of the list for every chunk the
  reader yields, the end of the list for \<open>{ done: true }\<close>. The result is the
  sequence of payloads the loop hands to \<open>JSON.parse\<close> and \<open>onChunk\<close>.
\<close>

fun read_loop :: "'d decoder \<Rightarrow> 'd \<Rightarrow> string \<Rightarrow> byte list list \<Rightarrow> string list" where
  "read_loop dec d buffer [] = []"
| "read_loop dec d buffer (v # rest) =
     (case dec d v of
        (d', text) \<Rightarrow>
          (case process_events (buffer @ strip_cr text) of
             (payloads, buffer', streamDone) \<Rightarrow>
               if streamDone then payloads
               else payloads @ read_loop dec d' buffer' rest))"

definition parseSSEStream :: "'d decoder \<Rightarrow> 'd \<Rightarrow> byte list list \<Rightarrow> string list" where
  "parseSSEStream dec d0 chunks = read_loop dec d0 [] chunks"

section \<open>The partial argument extractor: \<open>onUpsertInputDelta\<close>\<close>

text \<open>What \<open>writer.write\<close> receives: \<open>{ type: 'data-editing-start', data: { screenId, toolCallId } }\<close>.\<close>

record editing_start =
  es_screenId :: string
  es_toolCallId :: string

text \<open>
  The two collections of the request handler, \<open>upsertInputBuffers\<close> and
  \<open>sentEditingStart\<close>, and the events written to the stream so far.
\<close>

record extractor_state =
  upsertInputBuffers :: "string \<rightharpoonup> string"
  sentEditingStart :: "string set"
  written :: "editing_start list"

definition dquote :: char where
  "dquote = CHR 0x22"

text \<open>
  The regular expression \<^verbatim>\<open>/"id"\s*:\s*"([^"]+)"/\<close> tried at the start of \<open>s\<close>; the
  result is the group. Each greedy star is followed by a character outside its class, so
  taking the longest run is all the backtracking there is.
\<close>

definition match_here :: "string \<Rightarrow> string option" where
  "match_here s =
     (if prefix [dquote, CHR ''i'', CHR ''d'', dquote] s
      then (case dropWhile is_js_space (drop 4 s) of
              [] \<Rightarrow> None
            | c # r \<Rightarrow>
                if c = CHR '':''
                then (case dropWhile is_js_space r of
                        [] \<Rightarrow> None
                      | q # v \<Rightarrow>
                          if q = dquote \<and> takeWhile (\<lambda>c. c \<noteq> dquote) v \<noteq> []
                             \<and> dropWhile (\<lambda>c. c \<noteq> dquote) v \<noteq> []
                          then Some (takeWhile (\<lambda>c. c \<noteq> dquote) v)
                          else None)
                else None)
      else None)"

text \<open>\<open>updated.match(...)\<close>: the match that starts leftmost; the result is \<open>idMatch[1]\<close>.\<close>

fun id_match :: "string \<Rightarrow> string option" where
  "id_match [] = match_here []"
| "id_match (c # cs) =
     (case match_here (c # cs) of Some v \<Rightarrow> Some v | None \<Rightarrow> id_match cs)"

definition onUpsertInputDelta :: "string \<Rightarrow> string \<Rightarrow> extractor_state \<Rightarrow> extractor_state" where
  "onUpsertInputDelta cid delta st =
     (let current = (case upsertInputBuffers st cid of None \<Rightarrow> [] | Some b \<Rightarrow> b);
          updated = current @ delta;
          st1 = st\<lparr>upsertInputBuffers := (upsertInputBuffers st)(cid \<mapsto> updated)\<rparr>
      in if cid \<notin> sentEditingStart st1
         then (case id_match updated of
                 Some screenId \<Rightarrow>
                   st1\<lparr>sentEditingStart := insert cid (sentEditingStart st1),
                       written := written st1 @
                         [\<lparr>es_screenId = screenId, es_toolCallId = cid\<rparr>]\<rparr>
               | None \<Rightarrow> st1)
         else st1)"

text \<open>The deltas of a stream, each with its call id, in arrival order.\<close>

fun onUpsertInputDeltas :: "(string \<times> string) list \<Rightarrow> extractor_state \<Rightarrow> extractor_state" where
  "onUpsertInputDeltas [] st = st"
| "onUpsertInputDeltas ((cid, delta) # ds) st =
     onUpsertInputDeltas ds (onUpsertInputDelta cid delta st)"

definition initial_extractor :: extractor_state where
  "initial_extractor = \<lparr>upsertInputBuffers = Map.empty, sentEditingStart = {}, written = []\<rparr>"

section \<open>Notions the statements use\<close>

text \<open>
  The arrays in use lie below the allocation pointer, and the live array is no
  snapshot: what every state reachable from \<open>initial_project\<close> satisfies.
\<close>

definition wf_project :: "project_state \<Rightarrow> bool" where
  "wf_project st \<longleftrightarrow>
     screens st < next_addr st \<and>
     list_all (\<lambda>h. hi_screens h < next_addr st \<and> hi_screens h \<noteq> screens st) (history st)"

text \<open>
  An invocation list extends another, entry by entry with the same call id and, where
  the name was set, the same name.
\<close>

definition names_kept :: "tool_invocation list \<Rightarrow> tool_invocation list \<Rightarrow> bool" where
  "names_kept invs invs' \<longleftrightarrow>
     length invs \<le> length invs' \<and>
     (\<forall>i<length invs. toolCallId (invs' ! i) = toolCallId (invs ! i) \<and>
        (truthy (toolName (invs ! i)) \<longrightarrow> toolName (invs' ! i) = toolName (invs ! i)))"

text \<open>
  The message part of \<open>handleChunk\<close>.
\<close>

fun message_after :: "chunk \<Rightarrow> message \<Rightarrow> message" where
  "message_after (TextDelta delta) msg = msg\<lparr>content := content msg @ delta\<rparr>"
| "message_after (ToolInputStart cid tn) msg = snd (getOrCreateInvocation cid (Some tn) msg)"
| "message_after (DataEditingStart screenId cid) msg = msg"
| "message_after (ToolInputAvailable cid tn input) msg =
     write_invocation ((fst (getOrCreateInvocation cid (Some tn) msg))\<lparr>args := input, inv_state := Call\<rparr>)
       (snd (getOrCreateInvocation cid (Some tn) msg))"
| "message_after (ToolOutputAvailable cid output) msg =
     write_invocation ((fst (getOrCreateInvocation cid None msg))\<lparr>inv_state := Result, result := output\<rparr>)
       (snd (getOrCreateInvocation cid None msg))"
| "message_after (ToolOutputError cid err) msg =
     write_invocation ((fst (getOrCreateInvocation cid None msg))\<lparr>inv_state := Error, errorText := Some err\<rparr>)
       (snd (getOrCreateInvocation cid None msg))"
| "message_after (StreamError err) msg = msg"
| "message_after (OtherChunk ty) msg = msg"

text \<open>
  The call id whose invocation a chunk writes \<open>args\<close>, \<open>state\<close>,
  \<open>result\<close> or \<open>errorText\<close> of.
\<close>

fun lifecycle_call :: "chunk \<Rightarrow> string option" where
  "lifecycle_call (ToolInputAvailable cid tn input) = Some cid"
| "lifecycle_call (ToolOutputAvailable cid output) = Some cid"
| "lifecycle_call (ToolOutputError cid err) = Some cid"
| "lifecycle_call c = None"

text \<open>
  The dependencies \<open>useChatAgent\<close> starts a turn with: an empty message and an
  empty map, on the initial project.
\<close>

definition initial_handler :: handler_state where
  "initial_handler =
     \<lparr>assistantMessage = \<lparr>content = [], toolInvocations = Some []\<rparr>,
      toolCallIdToScreenId = Map.empty, project = initial_project\<rparr>"

text \<open>
  The chunks of type \<open>tool-output-available\<close>.
\<close>

fun is_output :: "chunk \<Rightarrow> bool" where
  "is_output (ToolOutputAvailable cid output) = True"
| "is_output c = False"

text \<open>
  A list of screens extends another, each screen of the shorter one being the same
  in the longer one up to its name.
\<close>

definition only_renamed :: "screen list \<Rightarrow> screen list \<Rightarrow> bool" where
  "only_renamed xs ys \<longleftrightarrow>
     length xs \<le> length ys \<and>
     (\<forall>i<length xs. ys ! i = (xs ! i)\<lparr>scr_name := scr_name (ys ! i)\<rparr>)"

text \<open>
  What a placeholder upsert with \<open>{ skipHistory: true }\<close> or a change of a
  flag does to the store: the history, the allocation pointer and every array but the
  live one stay, and the live screens are renamed or extended.
\<close>

definition placeholder_step :: "project_state \<Rightarrow> project_state \<Rightarrow> bool" where
  "placeholder_step st st' \<longleftrightarrow>
     history st' = history st \<and> next_addr st' = next_addr st \<and> screens st' = screens st
     \<and> (\<forall>a. a \<noteq> screens st \<longrightarrow> arrays st' a = arrays st a)
     \<and> only_renamed (live_screens st) (live_screens st')"

text \<open>
  The text a decoder yields for a sequence of chunks.
\<close>

fun decode_all :: "'d decoder \<Rightarrow> 'd \<Rightarrow> byte list list \<Rightarrow> string" where
  "decode_all dec d [] = []"
| "decode_all dec d (v # rest) = (case dec d v of (d', text) \<Rightarrow> text @ decode_all dec d' rest)"

text \<open>
  The events written for a call id.
\<close>

definition signals :: "string \<Rightarrow> extractor_state \<Rightarrow> editing_start list" where
  "signals cid st = filter (\<lambda>e. es_toolCallId e = cid) (written st)"

text \<open>
  \<open>upsertInputBuffers.get(toolCallId) || ''\<close>
\<close>

definition input_buffer :: "extractor_state \<Rightarrow> string \<Rightarrow> string" where
  "input_buffer st cid = (case upsertInputBuffers st cid of None \<Rightarrow> [] | Some b \<Rightarrow> b)"

text \<open>
  The deltas of one call id, in order.
\<close>

fun deltas_of :: "string \<Rightarrow> (string \<times> string) list \<Rightarrow> string list" where
  "deltas_of cid [] = []"
| "deltas_of cid ((c, delta) # ds) = (if c = cid then delta # deltas_of cid ds else deltas_of cid ds)"

text \<open>
  The match in the accumulated buffer at the first delta after which there is one.
\<close>

fun first_match :: "string \<Rightarrow> string list \<Rightarrow> string option" where
  "first_match buf [] = None"
| "first_match buf (delta # ds) =
     (case id_match (buf @ delta) of
        Some v \<Rightarrow> Some v
      | None \<Rightarrow> first_match (buf @ delta) ds)"

text \<open>
  The pattern in words: \<open>s\<close> starts with \<open>"id"\<close>, white space, a colon, white
  space and the non-empty value \<open>v\<close> between double quotes.
\<close>

definition id_occurrence :: "string \<Rightarrow> string \<Rightarrow> bool" where
  "id_occurrence s v \<longleftrightarrow>
     (\<exists>ws1 ws2 rest.
        s = [dquote, CHR ''i'', CHR ''d'', dquote] @ ws1 @ [CHR '':''] @ ws2
              @ [dquote] @ v @ [dquote] @ rest
        \<and> list_all is_js_space ws1 \<and> list_all is_js_space ws2
        \<and> v \<noteq> [] \<and> list_all (\<lambda>c. c \<noteq> dquote) v)"

subsection \<open>Example states and streams\<close>

text \<open>
  Example states and streams for the witnesses and counterexamples.
\<close>

definition example_project :: project_state where
  "example_project = upsertScreen 1 (placeholder ''a'' ''A'') None initial_project"

definition login_output :: partial_screen where
  "login_output =
     \<lparr>p_id = Some ''s1'', p_name = Some ''Login'', p_html = Some ''<div/>'', p_css = Some [],
      p_x = None, p_y = None\<rparr>"

definition login_output2 :: partial_screen where
  "login_output2 =
     \<lparr>p_id = Some ''s1'', p_name = Some ''Login again'', p_html = None, p_css = None,
      p_x = None, p_y = None\<rparr>"

text \<open>
  The output \<open>{ index: 0 }\<close>, as \<open>restoreVersion\<close> returns it.
\<close>

definition index_output :: tool_output where
  "index_output =
     \<lparr>out_fields = \<lparr>p_id = None, p_name = None, p_html = None, p_css = None,
                     p_x = None, p_y = None\<rparr>,
      out_index = Some (Num 0)\<rparr>"

definition example_handler :: handler_state where
  "example_handler =
     \<lparr>assistantMessage = \<lparr>content = [], toolInvocations = Some
        [\<lparr>toolCallId = ''call1'', toolName = Some ''upsertScreen'', inv_state = Result,
          args = None, result = Some \<lparr>out_fields = login_output, out_index = None\<rparr>, errorText = None\<rparr>]\<rparr>,
      toolCallIdToScreenId = Map.empty, project = initial_project\<rparr>"

definition example_stream :: "(int \<times> chunk) list" where
  "example_stream =
     [(1, ToolInputStart ''call1'' ''upsertScreen''),
      (2, ToolOutputAvailable ''call1''
            (Some \<lparr>out_fields = login_output, out_index = None\<rparr>))]"




definition rename_stream :: "(int \<times> chunk) list" where
  "rename_stream =
     [(1, ToolInputStart ''call1'' ''restoreVersion''),
      (2, ToolInputAvailable ''call1'' ''restoreVersion'' None),
      (3, ToolOutputAvailable ''call1'' (Some index_output)),
      (4, ToolOutputError ''call1'' ''boom'')]"

definition ascii_bytes :: "string \<Rightarrow> byte list" where
  "ascii_bytes s = map of_char s"

definition example_chunks :: "byte list list" where
  "example_chunks =
     [ascii_bytes (''data: {}'' @ [carriage_return, newline]),
      ascii_bytes [carriage_return],
      ascii_bytes ([newline] @ ''data: [DO''),
      ascii_bytes (''NE]'' @ [newline, newline] @ ''data: late'' @ [newline, newline])]"

definition example_deltas :: "(string \<times> string) list" where
  "example_deltas =
     [(''call1'', ''{\"id\":\"lo''), (''call2'', ''{\"id\": \"other\"''),
      (''call1'', ''gin\", \"id\":\"x\"''), (''call1'', ''\"id\":\"late\"'')]"

section \<open>The document store: proofs\<close>

lemma findIndex_Some_iff:
  "findIndex P xs = Some i \<longleftrightarrow> i < length xs \<and> P (xs ! i) \<and> (\<forall>j<i. \<not> P (xs ! j))"
proof (induction xs arbitrary: i)
  case Nil
  then show ?case by simp
next
  case (Cons x xs)
  show ?case
  proof (cases "P x")
    case True
    then show ?thesis by (cases i) auto
  next
    case False
    show ?thesis
    proof (cases i)
      case 0
      with False show ?thesis by simp
    next
      case (Suc k)
      have "(\<forall>j<Suc k. \<not> P ((x # xs) ! j)) \<longleftrightarrow> (\<forall>j<k. \<not> P (xs ! j))"
        using False by (auto simp: less_Suc_eq_0_disj)
      with False Suc Cons.IH [of k] show ?thesis by auto
    qed
  qed
qed

lemma findIndex_None_iff: "findIndex P xs = None \<longleftrightarrow> (\<forall>x\<in>set xs. \<not> P x)"
  by (induction xs) auto

lemma live_push_history [simp]: "live_screens (push_history now st) = live_screens st"
  by (simp add: push_history_def json_clone_def live_screens_def)

lemma history_push_history [simp]:
  "history (push_history now st) = history st @ [\<lparr>timestamp = now, hi_screens = next_addr st\<rparr>]"
  by (simp add: push_history_def json_clone_def)

lemma history_set_live [simp]: "history (set_live xs st) = history st"
  by (simp add: set_live_def)

lemma live_set_live [simp]: "live_screens (set_live xs st) = xs"
  by (simp add: set_live_def live_screens_def)

lemma history_upsertScreen:
  "history (upsertScreen now scr options st) =
     (if skips_history options then history st
      else history st @ [\<lparr>timestamp = now, hi_screens = next_addr st\<rparr>])"
  by (simp add: upsertScreen_def Let_def split: option.split)

lemma live_upsertScreen:
  "live_screens (upsertScreen now scr options st) =
     (case findIndex (\<lambda>s. scr_id s = p_id scr) (live_screens st) of
        Some i \<Rightarrow> (live_screens st)[i := merge_screen (live_screens st ! i) scr]
      | None \<Rightarrow> live_screens st @ [new_screen (max_x (live_screens st)) scr])"
  by (simp add: upsertScreen_def Let_def split: option.split)

lemma screens_upsertScreen [simp]: "screens (upsertScreen now scr options st) = screens st"
  by (simp add: upsertScreen_def Let_def set_live_def push_history_def json_clone_def
      split: option.split)

lemma next_addr_upsertScreen:
  "next_addr (upsertScreen now scr options st) =
     (if skips_history options then next_addr st else Suc (next_addr st))"
  by (simp add: upsertScreen_def Let_def set_live_def push_history_def json_clone_def
      split: option.split)

lemma arrays_upsertScreen_other:
  assumes "a \<noteq> screens st" and "a < next_addr st"
  shows "arrays (upsertScreen now scr options st) a = arrays st a"
  using assms
  by (simp add: upsertScreen_def Let_def set_live_def push_history_def json_clone_def
      split: option.split)

lemma arrays_upsertScreen_pushed:
  assumes "screens st \<noteq> next_addr st" and "\<not> skips_history options"
  shows "arrays (upsertScreen now scr options st) (next_addr st) = live_screens st"
  using assms
  by (simp add: upsertScreen_def Let_def set_live_def push_history_def json_clone_def
      live_screens_def split: option.split)

lemma flags_upsertScreen [simp]:
  "editingScreenId (upsertScreen now scr options st) = editingScreenId st"
  "isDesigning (upsertScreen now scr options st) = isDesigning st"
  by (simp_all add: upsertScreen_def Let_def set_live_def push_history_def json_clone_def
      split: option.split)

lemma array_get_SomeD:
  assumes "array_get xs index = Some v"
  shows "v \<in> set xs" and "array_get (xs @ ys) index = Some v"
proof -
  obtain q where q: "index = Num q" "q = of_int \<lfloor>q\<rfloor>" "0 \<le> q"
      "nat \<lfloor>q\<rfloor> < length xs" "v = xs ! nat \<lfloor>q\<rfloor>"
    using assms by (cases index) (simp_all split: if_splits)
  show "v \<in> set xs"
    using q(4,5) by simp
  show "array_get (xs @ ys) index = Some v"
    using q by (simp add: nth_append)
qed

lemma restoreVersion_Some:
  assumes "array_get (history st) index = Some h"
  shows "restoreVersion index st =
     st\<lparr>arrays := (arrays st)(next_addr st := arrays st (hi_screens h)),
        next_addr := Suc (next_addr st), screens := next_addr st\<rparr>"
  using assms by (simp add: restoreVersion_def json_clone_def)

lemma wf_project_upsertScreen:
  assumes "wf_project st"
  shows "wf_project (upsertScreen now scr options st)"
  using assms
  by (auto simp: wf_project_def history_upsertScreen next_addr_upsertScreen list_all_iff)

lemma wf_project_restoreVersion:
  assumes "wf_project st"
  shows "wf_project (restoreVersion index st)"
proof (cases "array_get (history st) index")
  case None
  with assms show ?thesis by (simp add: restoreVersion_def)
next
  case (Some h)
  with assms show ?thesis
    by (auto simp: restoreVersion_Some wf_project_def list_all_iff)
qed

lemma wf_project_initial: "wf_project initial_project"
  by (simp add: wf_project_def initial_project_def)

lemma snapshot_upsertScreen:
  assumes "wf_project st" and "h \<in> set (history st)"
  shows "snapshot_screens (upsertScreen now scr options st) h = snapshot_screens st h"
  using assms
  by (simp add: snapshot_screens_def wf_project_def list_all_iff arrays_upsertScreen_other)

lemma none_skips: "\<not> skips_history None"
  by (simp add: skips_history_def)

lemma skip_history_skips: "skips_history skip_history"
  by (simp add: skips_history_def skip_history_def)

lemma welcome_screen_fields [simp]:
  "scr_id welcome_screen = Some ''welcome''" "scr_name welcome_screen = ''Welcome Screen''"
  "scr_css welcome_screen = []" "scr_x welcome_screen = 100" "scr_y welcome_screen = 100"
  "scr_html welcome_screen = welcome_html"
  by (simp_all add: welcome_screen_def)

lemma initial_project_fields [simp]:
  "live_screens initial_project = [welcome_screen]" "history initial_project = []"
  "next_addr initial_project = 1" "screens initial_project = 0"
  "editingScreenId initial_project = None" "isDesigning initial_project = False"
  by (simp_all add: initial_project_def live_screens_def)

lemma example_project_fields:
  "wf_project example_project"
  "history example_project = [\<lparr>timestamp = 1, hi_screens = 1\<rparr>]"
  "snapshot_screens example_project \<lparr>timestamp = 1, hi_screens = 1\<rparr> = [welcome_screen]"
proof -
  show "wf_project example_project"
    unfolding example_project_def by (intro wf_project_upsertScreen wf_project_initial)
  show "history example_project = [\<lparr>timestamp = 1, hi_screens = 1\<rparr>]"
    by (simp add: example_project_def history_upsertScreen none_skips)
  have "arrays example_project (next_addr initial_project) = live_screens initial_project"
    unfolding example_project_def by (rule arrays_upsertScreen_pushed) (simp_all add: none_skips)
  then show "snapshot_screens example_project \<lparr>timestamp = 1, hi_screens = 1\<rparr> = [welcome_screen]"
    by (simp add: snapshot_screens_def)
qed

subsection \<open>Claims on the document store\<close>

text \<open>
  Claim C4. For every project state and every partial screen, \<open>upsertScreen\<close> called
  with \<open>{ skipHistory: true }\<close> leaves the length of the history unchanged, and
  \<open>upsertScreen\<close> called without options, with \<open>{}\<close> or with
  \<open>{ skipHistory: false }\<close> makes the history longer by exactly one item.
\<close>

theorem upsertScreen_history_length:
  "length (history (upsertScreen now scr (Some \<lparr>skipHistory = Some True\<rparr>) st)) = length (history st)
   \<and> length (history (upsertScreen now scr None st)) = Suc (length (history st))
   \<and> length (history (upsertScreen now scr (Some \<lparr>skipHistory = None\<rparr>) st)) = Suc (length (history st))
   \<and> length (history (upsertScreen now scr (Some \<lparr>skipHistory = Some False\<rparr>) st)) = Suc (length (history st))"
  by (simp add: history_upsertScreen skips_history_def)

text \<open>
  The two cases of C4 on the initial project: a placeholder upsert that skips the
  history, and a recorded upsert.
\<close>

theorem upsertScreen_history_length_witness:
  "length (history (upsertScreen 1 (placeholder ''a'' ''X'') (Some \<lparr>skipHistory = Some True\<rparr>)
      initial_project)) = 0
   \<and> length (history (upsertScreen 1 login_output None initial_project)) = 1"
  using upsertScreen_history_length [of 1 "placeholder ''a'' ''X''" initial_project]
    upsertScreen_history_length [of 1 login_output initial_project]
  by simp

text \<open>
  Claim C5. In a state of the store whose arrays are allocated and whose live array is
  no snapshot, let \<open>h\<close> be the history item at a valid index. Restoring that index
  makes the live screens equal to the snapshot of \<open>h\<close>; restoring twice does the
  same; an \<open>upsertScreen\<close> after the restore leaves the snapshot stored for \<open>h\<close>
  as it was; and restoring, upserting and restoring again yields the live screens equal
  to the snapshot as it was before the sequence.
\<close>

theorem restoreVersion_upsertScreen_restoreVersion:
  assumes "wf_project st" and "array_get (history st) index = Some h"
  shows "live_screens (restoreVersion index st) = snapshot_screens st h
    \<and> live_screens (restoreVersion index (restoreVersion index st)) = snapshot_screens st h
    \<and> snapshot_screens (upsertScreen now scr options (restoreVersion index st)) h
        = snapshot_screens st h
    \<and> live_screens (restoreVersion index (upsertScreen now scr options (restoreVersion index st)))
        = snapshot_screens st h"
proof -
  let ?st1 = "restoreVersion index st"
  let ?st2 = "upsertScreen now scr options ?st1"
  have h_in: "h \<in> set (history st)"
    using assms(2) by (rule array_get_SomeD)
  have old: "hi_screens h < next_addr st"
    using assms(1) h_in by (simp add: wf_project_def list_all_iff)
  have st1: "?st1 = st\<lparr>arrays := (arrays st)(next_addr st := arrays st (hi_screens h)),
        next_addr := Suc (next_addr st), screens := next_addr st\<rparr>"
    using assms(2) by (rule restoreVersion_Some)
  have hist1: "history ?st1 = history st"
    by (simp add: st1)
  have snap1: "snapshot_screens ?st1 h = snapshot_screens st h"
    using old by (simp add: st1 snapshot_screens_def)
  have live1: "live_screens ?st1 = snapshot_screens st h"
    by (simp add: st1 live_screens_def snapshot_screens_def)
  have wf1: "wf_project ?st1"
    using assms(1) by (rule wf_project_restoreVersion)
  have get1: "array_get (history ?st1) index = Some h"
    using assms(2) hist1 by simp
  have live11: "live_screens (restoreVersion index ?st1) = snapshot_screens st h"
    using snap1 by (simp add: restoreVersion_Some [OF get1] live_screens_def snapshot_screens_def)
  have h_in1: "h \<in> set (history ?st1)"
    using h_in hist1 by simp
  have snap2: "snapshot_screens ?st2 h = snapshot_screens st h"
    using snapshot_upsertScreen [OF wf1 h_in1, of now scr options] snap1 by simp
  have get2: "array_get (history ?st2) index = Some h"
    using array_get_SomeD(2) [OF get1] get1 by (simp add: history_upsertScreen)
  have live3: "live_screens (restoreVersion index ?st2) = snapshot_screens st h"
    using snap2 by (simp add: restoreVersion_Some [OF get2] live_screens_def snapshot_screens_def)
  from live1 live11 snap2 live3 show ?thesis by blast
qed

text \<open>
  C5 on a project with one recorded upsert: the snapshot at index 0 holds the welcome
  screen alone, and it is what the sequence ends with.
\<close>

theorem restoreVersion_upsertScreen_restoreVersion_witness:
  "wf_project example_project
   \<and> array_get (history example_project) (Num 0) = Some \<lparr>timestamp = 1, hi_screens = 1\<rparr>
   \<and> live_screens (restoreVersion (Num 0)
        (upsertScreen 2 (placeholder ''b'' ''B'') None (restoreVersion (Num 0) example_project)))
      = [welcome_screen]
   \<and> snapshot_screens
        (upsertScreen 2 (placeholder ''b'' ''B'') None (restoreVersion (Num 0) example_project))
        \<lparr>timestamp = 1, hi_screens = 1\<rparr>
      = [welcome_screen]"
proof -
  have get: "array_get (history example_project) (Num 0) = Some \<lparr>timestamp = 1, hi_screens = 1\<rparr>"
    by (simp add: example_project_fields)
  note restoreVersion_upsertScreen_restoreVersion [OF example_project_fields(1) get,
      of 2 "placeholder ''b'' ''B''" None, unfolded example_project_fields(3)]
  then show ?thesis
    using get example_project_fields(1) by blast
qed

text \<open>
  Claim C6. When the live screens hold a screen with the id of the update (at \<open>i\<close>,
  the first such position), \<open>upsertScreen\<close> merges shallowly: the number of screens
  and the id stay, each of name, html, css, x and y is the update's value when the
  update provides one and the previous value when it omits it, and every other screen is
  unchanged.
\<close>

theorem upsertScreen_merge_keeps_omitted:
  assumes "i < length (live_screens st)"
    and "scr_id (live_screens st ! i) = p_id scr"
    and "\<forall>j<i. scr_id (live_screens st ! j) \<noteq> p_id scr"
  shows "length (live_screens (upsertScreen now scr options st)) = length (live_screens st)
    \<and> scr_id (live_screens (upsertScreen now scr options st) ! i) = scr_id (live_screens st ! i)
    \<and> scr_name (live_screens (upsertScreen now scr options st) ! i)
        = (case p_name scr of Some v \<Rightarrow> v | None \<Rightarrow> scr_name (live_screens st ! i))
    \<and> scr_html (live_screens (upsertScreen now scr options st) ! i)
        = (case p_html scr of Some v \<Rightarrow> v | None \<Rightarrow> scr_html (live_screens st ! i))
    \<and> scr_css (live_screens (upsertScreen now scr options st) ! i)
        = (case p_css scr of Some v \<Rightarrow> v | None \<Rightarrow> scr_css (live_screens st ! i))
    \<and> scr_x (live_screens (upsertScreen now scr options st) ! i)
        = (case p_x scr of Some v \<Rightarrow> v | None \<Rightarrow> scr_x (live_screens st ! i))
    \<and> scr_y (live_screens (upsertScreen now scr options st) ! i)
        = (case p_y scr of Some v \<Rightarrow> v | None \<Rightarrow> scr_y (live_screens st ! i))
    \<and> (\<forall>j<length (live_screens st). j \<noteq> i \<longrightarrow>
          live_screens (upsertScreen now scr options st) ! j = live_screens st ! j)"
proof -
  have "findIndex (\<lambda>s. scr_id s = p_id scr) (live_screens st) = Some i"
    using assms by (simp add: findIndex_Some_iff)
  then have "live_screens (upsertScreen now scr options st)
      = (live_screens st)[i := merge_screen (live_screens st ! i) scr]"
    by (simp add: live_upsertScreen)
  moreover have "scr_id (merge_screen (live_screens st ! i) scr) = scr_id (live_screens st ! i)"
    using assms(2) by (simp add: merge_screen_def split: option.split)
  ultimately show ?thesis
    using assms(1) by (simp add: merge_screen_def)
qed

text \<open>
  C6 on the welcome screen: an update that carries only \<open>html\<close> keeps the name, the
  css and both coordinates.
\<close>

theorem upsertScreen_merge_keeps_omitted_witness:
  "live_screens initial_project = [welcome_screen]
   \<and> live_screens (upsertScreen 7
        \<lparr>p_id = Some ''welcome'', p_name = None, p_html = Some ''<p/>'', p_css = None,
         p_x = None, p_y = None\<rparr> None initial_project)
      = [\<lparr>scr_id = Some ''welcome'', scr_name = ''Welcome Screen'', scr_html = ''<p/>'',
          scr_css = [], scr_x = 100, scr_y = 100\<rparr>]"
proof -
  let ?p = "\<lparr>p_id = Some ''welcome'', p_name = None, p_html = Some ''<p/>'', p_css = None,
         p_x = None, p_y = None\<rparr>"
  let ?st = "upsertScreen 7 ?p None initial_project"
  from upsertScreen_merge_keeps_omitted [of 0 initial_project ?p 7 None]
  have "length (live_screens ?st) = 1" and "scr_id (live_screens ?st ! 0) = Some ''welcome''"
    and "scr_name (live_screens ?st ! 0) = ''Welcome Screen''"
    and "scr_html (live_screens ?st ! 0) = ''<p/>''"
    and "scr_css (live_screens ?st ! 0) = []"
    and "scr_x (live_screens ?st ! 0) = 100" and "scr_y (live_screens ?st ! 0) = 100"
    by simp_all
  moreover obtain s where "live_screens ?st = [s]"
    using \<open>length (live_screens ?st) = 1\<close> by (cases "live_screens ?st") auto
  ultimately show ?thesis
    by (cases "hd (live_screens ?st)") auto
qed

text \<open>
  Claim C8. For an index at which the history has no item (not a number, infinite,
  negative, not an integer, or at least the length of the history),
  \<open>restoreVersion\<close> returns the state it was given: screens and history unchanged,
  and no error, the function having no failing branch.
\<close>

theorem restoreVersion_out_of_range:
  assumes "index = NaN \<or> index = PosInfinity \<or> index = NegInfinity
     \<or> (\<exists>q. index = Num q \<and> (q < 0 \<or> q \<noteq> of_int \<lfloor>q\<rfloor> \<or> of_nat (length (history st)) \<le> q))"
  shows "restoreVersion index st = st"
proof -
  have "array_get (history st) index = None"
  proof (cases index)
    case (Num q)
    with assms have "q < 0 \<or> q \<noteq> of_int \<lfloor>q\<rfloor> \<or> of_nat (length (history st)) \<le> q"
      by simp
    moreover have "\<not> nat \<lfloor>q\<rfloor> < length (history st)"
      if "of_nat (length (history st)) \<le> q"
    proof -
      from that have "int (length (history st)) \<le> \<lfloor>q\<rfloor>"
        by (simp add: le_floor_iff)
      then show ?thesis by linarith
    qed
    ultimately show ?thesis
      using Num by auto
  qed simp_all
  then show ?thesis by (simp add: restoreVersion_def)
qed

text \<open>
  C8 on a history of one item, at the indices \<open>1.5\<close>, \<open>-1\<close>, \<open>1\<close> and
  \<open>NaN\<close>.
\<close>

theorem restoreVersion_out_of_range_witness:
  "length (history example_project) = 1
   \<and> restoreVersion (Num (3 / 2)) example_project = example_project
   \<and> restoreVersion (Num (- 1)) example_project = example_project
   \<and> restoreVersion (Num 1) example_project = example_project
   \<and> restoreVersion NaN example_project = example_project"
proof -
  have "\<lfloor>3 / 2 :: rat\<rfloor> = 1"
    by (rule floor_unique) simp_all
  then have "(3 / 2 :: rat) \<noteq> of_int \<lfloor>3 / 2 :: rat\<rfloor>"
    by simp
  then have a: "restoreVersion (Num (3 / 2)) example_project = example_project"
    by (intro restoreVersion_out_of_range) blast
  have b: "restoreVersion (Num (- 1)) example_project = example_project"
    by (rule restoreVersion_out_of_range) simp
  have c: "restoreVersion (Num 1) example_project = example_project"
    by (rule restoreVersion_out_of_range) (simp add: example_project_fields)
  have d: "restoreVersion NaN example_project = example_project"
    by (rule restoreVersion_out_of_range) simp
  from a b c d show ?thesis
    by (simp add: example_project_fields)
qed

text \<open>
  Claim C9. After a placeholder upsert with \<open>{ skipHistory: true }\<close> for an id
  the live screens do not hold, followed by a history-recording upsert, the history has
  one more item, the snapshot of that newest item is the former screen set followed by the
  placeholder screen, and restoring to it brings the placeholder back.
\<close>

theorem snapshot_includes_placeholder:
  assumes "wf_project st" and "\<forall>s\<in>set (live_screens st). scr_id s \<noteq> Some sid"
  shows "history (upsertScreen now2 scr None (upsertScreen now1 (placeholder sid nm) skip_history st))
      = history st @ [\<lparr>timestamp = now2, hi_screens = next_addr st\<rparr>]
    \<and> snapshot_screens
        (upsertScreen now2 scr None (upsertScreen now1 (placeholder sid nm) skip_history st))
        \<lparr>timestamp = now2, hi_screens = next_addr st\<rparr>
      = live_screens st @
          [\<lparr>scr_id = Some sid, scr_name = nm, scr_html = [], scr_css = [],
            scr_x = max_x (live_screens st) + 50, scr_y = 50\<rparr>]
    \<and> live_screens (restoreVersion (Num (of_nat (length (history st))))
        (upsertScreen now2 scr None (upsertScreen now1 (placeholder sid nm) skip_history st)))
      = live_screens st @
          [\<lparr>scr_id = Some sid, scr_name = nm, scr_html = [], scr_css = [],
            scr_x = max_x (live_screens st) + 50, scr_y = 50\<rparr>]"
proof -
  let ?ph = "\<lparr>scr_id = Some sid, scr_name = nm, scr_html = [], scr_css = [],
            scr_x = max_x (live_screens st) + 50, scr_y = 50\<rparr>"
  let ?st1 = "upsertScreen now1 (placeholder sid nm) skip_history st"
  let ?st2 = "upsertScreen now2 scr None ?st1"
  let ?h = "\<lparr>timestamp = now2, hi_screens = next_addr st\<rparr>"
  have none: "findIndex (\<lambda>s. scr_id s = p_id (placeholder sid nm)) (live_screens st) = None"
    using assms(2) by (simp add: findIndex_None_iff placeholder_def)
  have live1: "live_screens ?st1 = live_screens st @ [?ph]"
    using none by (simp add: live_upsertScreen new_screen_def merge_screen_def placeholder_def)
  have hist1: "history ?st1 = history st" and next1: "next_addr ?st1 = next_addr st"
    using skip_history_skips by (simp_all add: history_upsertScreen next_addr_upsertScreen)
  have wf1: "wf_project ?st1"
    using assms(1) by (rule wf_project_upsertScreen)
  have hist2: "history ?st2 = history st @ [?h]"
    using none_skips by (simp add: history_upsertScreen [of now2] hist1 next1)
  have "screens ?st1 \<noteq> next_addr ?st1"
    using wf1 by (simp add: wf_project_def)
  then have "arrays ?st2 (next_addr ?st1) = live_screens ?st1"
    using none_skips by (rule arrays_upsertScreen_pushed)
  then have snap2: "snapshot_screens ?st2 ?h = live_screens st @ [?ph]"
    by (simp add: snapshot_screens_def next1 live1)
  have get2: "array_get (history ?st2) (Num (of_nat (length (history st)))) = Some ?h"
    by (simp add: hist2)
  have "live_screens (restoreVersion (Num (of_nat (length (history st)))) ?st2)
      = snapshot_screens ?st2 ?h"
    unfolding restoreVersion_Some [OF get2] by (simp add: live_screens_def snapshot_screens_def)
  then have live3: "live_screens (restoreVersion (Num (of_nat (length (history st)))) ?st2)
      = live_screens st @ [?ph]"
    using snap2 by (rule trans)
  from hist2 snap2 live3 show ?thesis by blast
qed

text \<open>
  C9 on the initial project: restoring the only snapshot yields the welcome screen and
  the placeholder \<open>login\<close>, placed at \<open>x = 550\<close>.
\<close>

theorem snapshot_includes_placeholder_witness:
  "wf_project initial_project
   \<and> list_all (\<lambda>s. scr_id s \<noteq> Some ''login'') (live_screens initial_project)
   \<and> live_screens (restoreVersion (Num 0)
        (upsertScreen 2 login_output None
          (upsertScreen 1 (placeholder ''login'' ''Designing...'') skip_history initial_project)))
      = [welcome_screen,
         \<lparr>scr_id = Some ''login'', scr_name = ''Designing...'', scr_html = [], scr_css = [],
          scr_x = 550, scr_y = 50\<rparr>]"
proof -
  have no: "\<forall>s\<in>set (live_screens initial_project). scr_id s \<noteq> Some ''login''"
    by simp
  from snapshot_includes_placeholder [OF wf_project_initial no, of 2 login_output 1 "''Designing...''"]
  show ?thesis
    by (simp add: wf_project_initial max_x_def)
qed

section \<open>The tool event handler: proofs\<close>

lemma names_kept_refl: "names_kept invs invs"
  by (simp add: names_kept_def)

lemma names_kept_trans:
  assumes "names_kept xs ys" and "names_kept ys zs"
  shows "names_kept xs zs"
  using assms unfolding names_kept_def
  by (metis (no_types, lifting) le_trans less_le_trans)

lemma names_kept_append: "names_kept invs (invs @ ys)"
  by (simp add: names_kept_def nth_append)

lemma names_kept_update:
  assumes "toolCallId v = toolCallId (invs ! k)"
    and "truthy (toolName (invs ! k)) \<longrightarrow> toolName v = toolName (invs ! k)"
  shows "names_kept invs (invs[k := v])"
  using assms
  by (cases "k < length invs") (auto simp: names_kept_def nth_list_update list_update_beyond)

lemma findIndex_key:
  "findIndex (\<lambda>i. f i = c) xs = findIndex (\<lambda>y. y = c) (map f xs)"
  by (induction xs) simp_all

lemma findIndex_update_same_key:
  assumes "k < length xs" and "f v = f (xs ! k)"
  shows "findIndex (\<lambda>i. f i = c) (xs[k := v]) = findIndex (\<lambda>i. f i = c) xs"
proof -
  have "map f (xs[k := v]) = map f xs"
    using assms by (simp add: map_update list_update_same_conv)
  then show ?thesis
    by (simp add: findIndex_key [of f c "xs[k := v]"] findIndex_key [of f c xs])
qed

lemma findIndex_append:
  "findIndex P (xs @ ys) =
     (case findIndex P xs of
        Some k \<Rightarrow> Some k
      | None \<Rightarrow> map_option (\<lambda>k. k + length xs) (findIndex P ys))"
  by (induction xs) (simp_all add: option.map_comp comp_def option.map_ident split: option.split)

lemma findIndex_less:
  assumes "findIndex P xs = Some k"
  shows "k < length xs" and "P (xs ! k)"
  using assms by (simp_all add: findIndex_Some_iff)

text \<open>What getOrCreateInvocation does to a message that has a list.\<close>

lemma getOrCreateInvocation_found:
  assumes "toolInvocations msg = Some invs"
    and "findIndex (\<lambda>i. toolCallId i = cid) invs = Some k"
  shows "getOrCreateInvocation cid tn msg =
     (if truthy tn \<and> \<not> truthy (toolName (invs ! k)) then (invs ! k)\<lparr>toolName := tn\<rparr> else invs ! k,
      msg\<lparr>toolInvocations := Some (invs[k :=
        if truthy tn \<and> \<not> truthy (toolName (invs ! k)) then (invs ! k)\<lparr>toolName := tn\<rparr>
        else invs ! k])\<rparr>)"
  using assms by (simp add: getOrCreateInvocation_def Let_def)

lemma getOrCreateInvocation_new:
  assumes "toolInvocations msg = Some invs"
    and "findIndex (\<lambda>i. toolCallId i = cid) invs = None"
  shows "getOrCreateInvocation cid tn msg =
     (created_invocation cid tn,
      msg\<lparr>toolInvocations := Some (invs @ [created_invocation cid tn])\<rparr>)"
  using assms by (simp add: getOrCreateInvocation_def)

text \<open>
  The invocation getOrCreateInvocation returns is the one find yields afterwards; the
  entries of the other call ids, the state, the result and the error text are as before.
\<close>

lemma getOrCreateInvocation_spec:
  assumes "toolInvocations msg = Some invs"
    and "getOrCreateInvocation cid tn msg = (ivc, msg')"
  shows "\<exists>invs'. toolInvocations msg' = Some invs' \<and> names_kept invs invs'"
    and "find_invocation cid msg' = Some ivc"
    and "toolCallId ivc = cid"
    and "content msg' = content msg"
    and "c \<noteq> cid \<Longrightarrow> find_invocation c msg' = find_invocation c msg"
    and "find_invocation cid msg = Some old \<Longrightarrow>
           inv_state ivc = inv_state old \<and> result ivc = result old \<and> errorText ivc = errorText old
           \<and> args ivc = args old
           \<and> (truthy (toolName old) \<longrightarrow> toolName ivc = toolName old)"
    and "find_invocation cid msg = None \<Longrightarrow> ivc = created_invocation cid tn"
proof -
  show "\<exists>invs'. toolInvocations msg' = Some invs' \<and> names_kept invs invs'"
  proof (cases "findIndex (\<lambda>i. toolCallId i = cid) invs")
    case None
    then show ?thesis
      using assms getOrCreateInvocation_new [OF assms(1) None, of tn]
      by (auto simp: names_kept_append)
  next
    case (Some k)
    then show ?thesis
      using assms getOrCreateInvocation_found [OF assms(1) Some, of tn]
      by (auto intro!: names_kept_update)
  qed
  show "find_invocation cid msg' = Some ivc"
  proof (cases "findIndex (\<lambda>i. toolCallId i = cid) invs")
    case None
    then show ?thesis
      using assms getOrCreateInvocation_new [OF assms(1) None, of tn]
      by (auto simp: find_invocation_def findIndex_append created_invocation_def)
  next
    case (Some k)
    have k: "k < length invs" "toolCallId (invs ! k) = cid"
      using findIndex_less [OF Some] by simp_all
    let ?v = "if truthy tn \<and> \<not> truthy (toolName (invs ! k)) then (invs ! k)\<lparr>toolName := tn\<rparr>
        else invs ! k"
    have "findIndex (\<lambda>i. toolCallId i = cid) (invs[k := ?v]) = Some k"
      using findIndex_update_same_key [of k invs toolCallId ?v cid] k Some by simp
    then show ?thesis
      using assms getOrCreateInvocation_found [OF assms(1) Some, of tn] k
      by (auto simp: find_invocation_def)
  qed
  show "toolCallId ivc = cid"
  proof (cases "findIndex (\<lambda>i. toolCallId i = cid) invs")
    case None
    then show ?thesis
      using assms getOrCreateInvocation_new [OF assms(1) None, of tn]
      by (auto simp: created_invocation_def)
  next
    case (Some k)
    then show ?thesis
      using assms getOrCreateInvocation_found [OF assms(1) Some, of tn] findIndex_less [OF Some]
      by (auto split: if_splits)
  qed
  show "content msg' = content msg"
    using assms by (auto simp: getOrCreateInvocation_def Let_def split: option.splits)
  show "find_invocation c msg' = find_invocation c msg" if "c \<noteq> cid"
  proof (cases "findIndex (\<lambda>i. toolCallId i = cid) invs")
    case None
    have msg': "msg' = msg\<lparr>toolInvocations := Some (invs @ [created_invocation cid tn])\<rparr>"
      using assms getOrCreateInvocation_new [OF assms(1) None, of tn] by auto
    have last: "findIndex (\<lambda>i. toolCallId i = c) [created_invocation cid tn] = None"
      using that by (simp add: created_invocation_def)
    show ?thesis
    proof (cases "findIndex (\<lambda>i. toolCallId i = c) invs")
      case None
      then show ?thesis
        using assms(1) last by (simp add: msg' find_invocation_def findIndex_append)
    next
      case (Some j)
      then show ?thesis
        using assms(1) findIndex_less(1) [OF Some]
        by (simp add: msg' find_invocation_def findIndex_append nth_append)
    qed
  next
    case (Some k)
    have k: "k < length invs" "toolCallId (invs ! k) = cid"
      using findIndex_less [OF Some] by simp_all
    let ?v = "if truthy tn \<and> \<not> truthy (toolName (invs ! k)) then (invs ! k)\<lparr>toolName := tn\<rparr>
        else invs ! k"
    have same: "findIndex (\<lambda>i. toolCallId i = c) (invs[k := ?v]) = findIndex (\<lambda>i. toolCallId i = c) invs"
      using findIndex_update_same_key [of k invs toolCallId ?v c] k by simp
    have "invs[k := ?v] ! j = invs ! j" if "findIndex (\<lambda>i. toolCallId i = c) invs = Some j" for j
    proof -
      have "toolCallId (invs ! j) = c"
        using findIndex_less [OF that] by simp
      with k \<open>c \<noteq> cid\<close> have "j \<noteq> k" by auto
      then show ?thesis by simp
    qed
    moreover have "msg' = msg\<lparr>toolInvocations := Some (invs[k := ?v])\<rparr>"
      using assms getOrCreateInvocation_found [OF assms(1) Some, of tn] by auto
    ultimately show ?thesis
      using assms(1) same
      by (cases "findIndex (\<lambda>i. toolCallId i = c) invs") (simp_all add: find_invocation_def)
  qed
  show "inv_state ivc = inv_state old \<and> result ivc = result old \<and> errorText ivc = errorText old
           \<and> args ivc = args old
           \<and> (truthy (toolName old) \<longrightarrow> toolName ivc = toolName old)"
    if "find_invocation cid msg = Some old"
  proof -
    from that assms(1) obtain k where
      Some: "findIndex (\<lambda>i. toolCallId i = cid) invs = Some k" and old: "old = invs ! k"
      by (auto simp: find_invocation_def)
    show ?thesis
      using assms getOrCreateInvocation_found [OF assms(1) Some, of tn] old
      by (auto split: if_splits)
  qed
  show "ivc = created_invocation cid tn" if "find_invocation cid msg = None"
  proof -
    from that assms(1) have None: "findIndex (\<lambda>i. toolCallId i = cid) invs = None"
      by (simp add: find_invocation_def)
    show ?thesis
      using assms getOrCreateInvocation_new [OF assms(1) None, of tn] by simp
  qed
qed

lemma write_invocation_spec:
  assumes "toolInvocations msg = Some invs"
    and "find_invocation (toolCallId v) msg = Some old"
    and "toolName v = toolName old"
  shows "\<exists>invs'. toolInvocations (write_invocation v msg) = Some invs' \<and> names_kept invs invs'"
    and "find_invocation (toolCallId v) (write_invocation v msg) = Some v"
    and "content (write_invocation v msg) = content msg"
    and "c \<noteq> toolCallId v \<Longrightarrow> find_invocation c (write_invocation v msg) = find_invocation c msg"
proof -
  from assms(1,2) obtain k where
    Some: "findIndex (\<lambda>i. toolCallId i = toolCallId v) invs = Some k" and old: "old = invs ! k"
    by (auto simp: find_invocation_def)
  have k: "k < length invs" "toolCallId (invs ! k) = toolCallId v"
    using findIndex_less [OF Some] by simp_all
  have w: "write_invocation v msg = msg\<lparr>toolInvocations := Some (invs[k := v])\<rparr>"
    using assms(1) Some by (simp add: write_invocation_def)
  show "\<exists>invs'. toolInvocations (write_invocation v msg) = Some invs' \<and> names_kept invs invs'"
    using k assms(3) old by (simp add: w names_kept_update)
  have "findIndex (\<lambda>i. toolCallId i = toolCallId v) (invs[k := v]) = Some k"
    using findIndex_update_same_key [of k invs toolCallId v "toolCallId v"] k Some by simp
  then show "find_invocation (toolCallId v) (write_invocation v msg) = Some v"
    using k by (simp add: w find_invocation_def)
  show "content (write_invocation v msg) = content msg"
    by (simp add: w)
  show "find_invocation c (write_invocation v msg) = find_invocation c msg"
    if "c \<noteq> toolCallId v"
  proof -
    have same: "findIndex (\<lambda>i. toolCallId i = c) (invs[k := v]) = findIndex (\<lambda>i. toolCallId i = c) invs"
      using findIndex_update_same_key [of k invs toolCallId v c] k by simp
    have "invs[k := v] ! j = invs ! j" if "findIndex (\<lambda>i. toolCallId i = c) invs = Some j" for j
    proof -
      have "toolCallId (invs ! j) = c"
        using findIndex_less [OF that] by simp
      with k \<open>c \<noteq> toolCallId v\<close> have "j \<noteq> k" by auto
      then show ?thesis by simp
    qed
    then show ?thesis
      using assms(1) same
      by (cases "findIndex (\<lambda>i. toolCallId i = c) invs") (simp_all add: w find_invocation_def)
  qed
qed

lemma assistantMessage_start_editing [simp]:
  "assistantMessage (start_editing now cid sid nm hs) = assistantMessage hs"
  by (simp add: start_editing_def)

lemma assistantMessage_clear_editing [simp]:
  "assistantMessage (clear_editing cid hs) = assistantMessage hs"
  by (simp add: clear_editing_def)

lemma handleChunk_message:
  "assistantMessage (handleChunk now c hs) = message_after c (assistantMessage hs)"
  by (cases c) (auto simp: Let_def split: prod.splits option.splits)

lemma update_invocation_spec:
  assumes "toolInvocations msg = Some invs"
    and "toolCallId v = toolCallId (fst (getOrCreateInvocation cid tn msg))"
    and "toolName v = toolName (fst (getOrCreateInvocation cid tn msg))"
  shows "\<exists>invs'. toolInvocations (write_invocation v (snd (getOrCreateInvocation cid tn msg))) = Some invs'
           \<and> names_kept invs invs'"
    and "find_invocation cid (write_invocation v (snd (getOrCreateInvocation cid tn msg))) = Some v"
    and "c \<noteq> cid \<Longrightarrow>
           find_invocation c (write_invocation v (snd (getOrCreateInvocation cid tn msg)))
             = find_invocation c msg"
proof -
  obtain ivc msg1 where goc: "getOrCreateInvocation cid tn msg = (ivc, msg1)"
    by (cases "getOrCreateInvocation cid tn msg")
  note spec = getOrCreateInvocation_spec [OF assms(1) goc]
  from spec(1) obtain invs1 where invs1: "toolInvocations msg1 = Some invs1" "names_kept invs invs1"
    by blast
  have v: "toolCallId v = cid" "toolName v = toolName ivc"
    using assms(2,3) spec(3) by (simp_all add: goc)
  have found: "find_invocation (toolCallId v) msg1 = Some ivc"
    using spec(2) v(1) by simp
  note w = write_invocation_spec [OF invs1(1) found v(2)]
  from w(1) invs1(2) show "\<exists>invs'. toolInvocations (write_invocation v (snd (getOrCreateInvocation cid tn msg))) = Some invs'
           \<and> names_kept invs invs'"
    by (auto simp: goc intro: names_kept_trans)
  show "find_invocation cid (write_invocation v (snd (getOrCreateInvocation cid tn msg))) = Some v"
    using w(2) v(1) by (simp add: goc)
  show "find_invocation c (write_invocation v (snd (getOrCreateInvocation cid tn msg)))
             = find_invocation c msg" if "c \<noteq> cid"
    using w(4) [of c] spec(5) [of c] that v(1) by (simp add: goc)
qed

lemma message_after_names_kept:
  assumes "toolInvocations msg = Some invs"
  shows "\<exists>invs'. toolInvocations (message_after c msg) = Some invs' \<and> names_kept invs invs'"
proof (cases c)
  case (ToolInputStart cid tn)
  obtain ivc msg1 where goc: "getOrCreateInvocation cid (Some tn) msg = (ivc, msg1)"
    by (cases "getOrCreateInvocation cid (Some tn) msg")
  show ?thesis
    using getOrCreateInvocation_spec(1) [OF assms goc] by (simp add: ToolInputStart goc)
next
  case (ToolInputAvailable cid tn input)
  show ?thesis
    unfolding ToolInputAvailable message_after.simps
    by (rule update_invocation_spec(1) [OF assms]) simp_all
next
  case (ToolOutputAvailable cid outp)
  show ?thesis
    unfolding ToolOutputAvailable message_after.simps
    by (rule update_invocation_spec(1) [OF assms]) simp_all
next
  case (ToolOutputError cid err)
  show ?thesis
    unfolding ToolOutputError message_after.simps
    by (rule update_invocation_spec(1) [OF assms]) simp_all
qed (use assms in \<open>simp_all add: names_kept_refl\<close>)

lemma handleChunks_names_kept:
  assumes "toolInvocations (assistantMessage hs) = Some invs"
  shows "\<exists>invs'. toolInvocations (assistantMessage (handleChunks cs hs)) = Some invs'
     \<and> names_kept invs invs'"
  using assms
proof (induction cs arbitrary: hs invs)
  case Nil
  then show ?case by (simp add: names_kept_refl)
next
  case (Cons nc cs)
  obtain now c where nc: "nc = (now, c)"
    by (cases nc)
  from message_after_names_kept [OF Cons.prems, of c]
  obtain invs1 where invs1: "toolInvocations (assistantMessage (handleChunk now c hs)) = Some invs1"
      "names_kept invs invs1"
    by (auto simp: handleChunk_message)
  from Cons.IH [OF invs1(1)] obtain invs' where
    "toolInvocations (assistantMessage (handleChunks cs (handleChunk now c hs))) = Some invs'"
    "names_kept invs1 invs'"
    by blast
  with invs1(2) show ?case
    by (auto simp: nc intro: names_kept_trans)
qed

lemma handleChunks_position_name:
  assumes "toolInvocations (assistantMessage hs) = Some invs"
    and "i < length invs"
    and "toolName (invs ! i) = Some n" and "n \<noteq> []"
  shows "\<exists>invs'. toolInvocations (assistantMessage (handleChunks cs hs)) = Some invs'
     \<and> i < length invs'
     \<and> toolCallId (invs' ! i) = toolCallId (invs ! i) \<and> toolName (invs' ! i) = Some n"
proof -
  from handleChunks_names_kept [OF assms(1), of cs] obtain invs' where
    invs': "toolInvocations (assistantMessage (handleChunks cs hs)) = Some invs'"
    and kept: "names_kept invs invs'"
    by blast
  have "truthy (toolName (invs ! i))"
    using assms(3,4) by (simp add: truthy_def)
  with kept assms(2,3) have "i < length invs' \<and> toolCallId (invs' ! i) = toolCallId (invs ! i)
      \<and> toolName (invs' ! i) = Some n"
    by (auto simp: names_kept_def)
  with invs' show ?thesis by blast
qed

lemma find_invocation_SomeD:
  assumes "find_invocation cid msg = Some ivc"
  obtains invs where "toolInvocations msg = Some invs"
  using assms by (cases "toolInvocations msg") (simp_all add: find_invocation_def)

lemma find_invocation_content [simp]:
  "find_invocation cid (msg\<lparr>content := t\<rparr>) = find_invocation cid msg"
  by (simp add: find_invocation_def)

lemma getOrCreateInvocation_None_found:
  assumes "find_invocation cid msg = Some ivc"
  shows "fst (getOrCreateInvocation cid None msg) = ivc"
proof -
  from assms obtain invs k where "toolInvocations msg = Some invs"
    "findIndex (\<lambda>i. toolCallId i = cid) invs = Some k" "ivc = invs ! k"
    by (cases "toolInvocations msg") (auto simp: find_invocation_def)
  then show ?thesis
    by (simp add: getOrCreateInvocation_found truthy_def)
qed

lemma getOrCreateInvocation_fst_fields:
  assumes "find_invocation cid msg = Some ivc"
  shows "inv_state (fst (getOrCreateInvocation cid tn msg)) = inv_state ivc"
    and "result (fst (getOrCreateInvocation cid tn msg)) = result ivc"
    and "errorText (fst (getOrCreateInvocation cid tn msg)) = errorText ivc"
    and "args (fst (getOrCreateInvocation cid tn msg)) = args ivc"
    and "toolCallId (fst (getOrCreateInvocation cid tn msg)) = cid"
    and "truthy (toolName ivc) \<Longrightarrow> toolName (fst (getOrCreateInvocation cid tn msg)) = toolName ivc"
    and "toolName (fst (getOrCreateInvocation cid tn msg))
          = (if truthy tn \<and> \<not> truthy (toolName ivc) then tn else toolName ivc)"
proof -
  from assms obtain invs where invs: "toolInvocations msg = Some invs"
    by (rule find_invocation_SomeD)
  obtain v msg1 where goc: "getOrCreateInvocation cid tn msg = (v, msg1)"
    by (cases "getOrCreateInvocation cid tn msg")
  from getOrCreateInvocation_spec(6) [OF invs goc assms] getOrCreateInvocation_spec(3) [OF invs goc]
  show "inv_state (fst (getOrCreateInvocation cid tn msg)) = inv_state ivc"
    and "result (fst (getOrCreateInvocation cid tn msg)) = result ivc"
    and "errorText (fst (getOrCreateInvocation cid tn msg)) = errorText ivc"
    and "args (fst (getOrCreateInvocation cid tn msg)) = args ivc"
    and "toolCallId (fst (getOrCreateInvocation cid tn msg)) = cid"
    and "truthy (toolName ivc) \<Longrightarrow> toolName (fst (getOrCreateInvocation cid tn msg)) = toolName ivc"
    by (simp_all add: goc)
  from assms invs obtain k where
    k: "findIndex (\<lambda>i. toolCallId i = cid) invs = Some k" "ivc = invs ! k"
    by (auto simp: find_invocation_def)
  show "toolName (fst (getOrCreateInvocation cid tn msg))
          = (if truthy tn \<and> \<not> truthy (toolName ivc) then tn else toolName ivc)"
    by (simp add: getOrCreateInvocation_found [OF invs k(1)] k(2))
qed

lemma message_after_written:
  assumes "toolInvocations msg = Some invs"
  shows "find_invocation cid (message_after (ToolInputAvailable cid tn input) msg)
      = Some ((fst (getOrCreateInvocation cid (Some tn) msg))\<lparr>args := input, inv_state := Call\<rparr>)"
    and "find_invocation cid (message_after (ToolOutputAvailable cid outp) msg)
      = Some ((fst (getOrCreateInvocation cid None msg))\<lparr>inv_state := Result, result := outp\<rparr>)"
    and "find_invocation cid (message_after (ToolOutputError cid err) msg)
      = Some ((fst (getOrCreateInvocation cid None msg))\<lparr>inv_state := Error, errorText := Some err\<rparr>)"
  unfolding message_after.simps
  by (rule update_invocation_spec(2) [OF assms]; simp)+

lemma message_after_other:
  assumes "find_invocation cid msg = Some ivc" and "lifecycle_call c \<noteq> Some cid"
  shows "\<exists>ivc'. find_invocation cid (message_after c msg) = Some ivc'
     \<and> inv_state ivc' = inv_state ivc \<and> result ivc' = result ivc
     \<and> errorText ivc' = errorText ivc \<and> args ivc' = args ivc
     \<and> (truthy (toolName ivc) \<longrightarrow> toolName ivc' = toolName ivc)"
proof -
  from assms(1) obtain invs where invs: "toolInvocations msg = Some invs"
    by (rule find_invocation_SomeD)
  show ?thesis
  proof (cases c)
    case (ToolInputStart cid' tn)
    obtain v msg1 where goc: "getOrCreateInvocation cid' (Some tn) msg = (v, msg1)"
      by (cases "getOrCreateInvocation cid' (Some tn) msg")
    show ?thesis
    proof (cases "cid' = cid")
      case True
      with goc have goc': "getOrCreateInvocation cid (Some tn) msg = (v, msg1)"
        by simp
      show ?thesis
        using getOrCreateInvocation_spec(2) [OF invs goc']
          getOrCreateInvocation_spec(6) [OF invs goc', of ivc] assms(1)
        by (simp add: ToolInputStart True goc')
    next
      case False
      then show ?thesis
        using getOrCreateInvocation_spec(5) [OF invs goc, of cid] assms(1)
        by (simp add: ToolInputStart goc)
    qed
  next
    case (ToolInputAvailable cid' tn input)
    with assms(2) have "cid \<noteq> cid'" by auto
    then show ?thesis
      unfolding ToolInputAvailable message_after.simps
      using update_invocation_spec(3) [OF invs, of _ cid' "Some tn" cid] assms(1) by simp
  next
    case (ToolOutputAvailable cid' outp)
    with assms(2) have "cid \<noteq> cid'" by auto
    then show ?thesis
      unfolding ToolOutputAvailable message_after.simps
      using update_invocation_spec(3) [OF invs, of _ cid' None cid] assms(1) by simp
  next
    case (ToolOutputError cid' err)
    with assms(2) have "cid \<noteq> cid'" by auto
    then show ?thesis
      unfolding ToolOutputError message_after.simps
      using update_invocation_spec(3) [OF invs, of _ cid' None cid] assms(1) by simp
  qed (use assms(1) in simp_all)
qed

lemma message_after_name:
  assumes "find_invocation cid msg = Some ivc" and "truthy (toolName ivc)"
  shows "\<exists>ivc'. find_invocation cid (message_after c msg) = Some ivc'
     \<and> toolName ivc' = toolName ivc"
proof (cases "lifecycle_call c = Some cid")
  case False
  with message_after_other [OF assms(1), of c] assms(2) show ?thesis
    by auto
next
  case True
  from assms(1) obtain invs where invs: "toolInvocations msg = Some invs"
    by (rule find_invocation_SomeD)
  from True show ?thesis
    using message_after_written [OF invs, of cid]
      getOrCreateInvocation_fst_fields(6) [OF assms]
    by (cases c) auto
qed

text \<open>The handler, chunk by chunk.\<close>

lemma handleChunk_ToolInputStart:
  "handleChunk now (ToolInputStart cid tn) hs =
     hs\<lparr>assistantMessage := message_after (ToolInputStart cid tn) (assistantMessage hs),
        project := (if tn = ''upsertScreen'' then setIsDesigning True (project hs)
                    else project hs)\<rparr>"
  by (simp add: Let_def split: prod.split)

lemma handleChunk_ToolInputAvailable:
  "handleChunk now (ToolInputAvailable cid tn input) hs =
     (let hs1 = hs\<lparr>assistantMessage :=
                 message_after (ToolInputAvailable cid tn input) (assistantMessage hs)\<rparr>
      in case input of
           Some i \<Rightarrow>
             (case in_id i of
                Some sid \<Rightarrow>
                  if toolName (fst (getOrCreateInvocation cid (Some tn) (assistantMessage hs)))
                       = Some ''upsertScreen''
                  then start_editing now cid sid
                         (case in_name i of Some n \<Rightarrow> n | None \<Rightarrow> ''Untitled Screen'') hs1
                  else hs1
              | None \<Rightarrow> hs1)
         | None \<Rightarrow> hs1)"
  by (simp add: Let_def split: prod.split option.split)

lemma handleChunk_ToolOutputAvailable:
  "handleChunk now (ToolOutputAvailable cid outp) hs =
     (let hs1 = hs\<lparr>assistantMessage :=
                 message_after (ToolOutputAvailable cid outp) (assistantMessage hs)\<rparr>;
          tn = toolName (fst (getOrCreateInvocation cid None (assistantMessage hs)))
      in case outp of
           None \<Rightarrow> hs1
         | Some out \<Rightarrow>
             if tn = Some ''upsertScreen''
             then clear_editing cid
                    (hs1\<lparr>project := upsertScreen now (out_fields out) None (project hs)\<rparr>)
             else if tn = Some ''restoreVersion''
             then (case out_index out of
                     Some index \<Rightarrow> hs1\<lparr>project := restoreVersion index (project hs)\<rparr>
                   | None \<Rightarrow> hs1)
             else hs1)"
  by (simp add: Let_def split: prod.split option.split)

lemma handleChunk_ToolOutputError:
  "handleChunk now (ToolOutputError cid err) hs =
     (let hs1 = hs\<lparr>assistantMessage :=
                 message_after (ToolOutputError cid err) (assistantMessage hs)\<rparr>
      in if toolName (fst (getOrCreateInvocation cid None (assistantMessage hs)))
              = Some ''upsertScreen''
         then clear_editing cid hs1 else hs1)"
  by (simp add: Let_def split: prod.split)

lemma setters_simps [simp]:
  "arrays (setEditingScreenId v st) = arrays st"
  "screens (setEditingScreenId v st) = screens st"
  "history (setEditingScreenId v st) = history st"
  "next_addr (setEditingScreenId v st) = next_addr st"
  "editingScreenId (setEditingScreenId v st) = v"
  "isDesigning (setEditingScreenId v st) = isDesigning st"
  "arrays (setIsDesigning b st) = arrays st"
  "screens (setIsDesigning b st) = screens st"
  "history (setIsDesigning b st) = history st"
  "next_addr (setIsDesigning b st) = next_addr st"
  "editingScreenId (setIsDesigning b st) = editingScreenId st"
  "isDesigning (setIsDesigning b st) = b"
  by (simp_all add: setEditingScreenId_def setIsDesigning_def)

lemma setters_views [simp]:
  "live_screens (setEditingScreenId v st) = live_screens st"
  "live_screens (setIsDesigning b st) = live_screens st"
  "snapshot_screens (setEditingScreenId v st) h = snapshot_screens st h"
  "snapshot_screens (setIsDesigning b st) h = snapshot_screens st h"
  "wf_project (setEditingScreenId v st) = wf_project st"
  "wf_project (setIsDesigning b st) = wf_project st"
  by (simp_all add: live_screens_def snapshot_screens_def wf_project_def)

lemma project_clear_editing [simp]:
  "project (clear_editing cid hs) = setIsDesigning False (setEditingScreenId None (project hs))"
  "toolCallIdToScreenId (clear_editing cid hs) cid = None"
  by (simp_all add: clear_editing_def)

lemma project_start_editing [simp]:
  "project (start_editing now cid sid nm hs) =
     upsertScreen now (placeholder sid nm) skip_history (setEditingScreenId (Some sid) (project hs))"
  by (simp add: start_editing_def)

lemma live_placeholder:
  "live_screens (upsertScreen now (placeholder sid nm) options st) =
     (case findIndex (\<lambda>s. scr_id s = Some sid) (live_screens st) of
        Some i \<Rightarrow> (live_screens st)[i := (live_screens st ! i)\<lparr>scr_name := nm\<rparr>]
      | None \<Rightarrow> live_screens st @
          [\<lparr>scr_id = Some sid, scr_name = nm, scr_html = [], scr_css = [],
            scr_x = max_x (live_screens st) + 50, scr_y = 50\<rparr>])"
proof (cases "findIndex (\<lambda>s. scr_id s = Some sid) (live_screens st)")
  case None
  then show ?thesis
    by (simp add: live_upsertScreen placeholder_def new_screen_def merge_screen_def)
next
  case (Some i)
  then have "scr_id (live_screens st ! i) = Some sid"
    by (simp add: findIndex_Some_iff)
  then have "merge_screen (live_screens st ! i) (placeholder sid nm)
      = (live_screens st ! i)\<lparr>scr_name := nm\<rparr>"
    by (simp add: merge_screen_def placeholder_def)
  with Some show ?thesis
    by (simp add: live_upsertScreen placeholder_def)
qed

lemma only_renamed_refl: "only_renamed xs xs"
  by (simp add: only_renamed_def)

lemma only_renamed_trans:
  assumes "only_renamed xs ys" and "only_renamed ys zs"
  shows "only_renamed xs zs"
proof -
  have len: "length xs \<le> length ys" "length ys \<le> length zs"
    using assms by (simp_all add: only_renamed_def)
  have "zs ! i = (xs ! i)\<lparr>scr_name := scr_name (zs ! i)\<rparr>" if "i < length xs" for i
  proof -
    have "ys ! i = (xs ! i)\<lparr>scr_name := scr_name (ys ! i)\<rparr>"
      using assms(1) that by (simp add: only_renamed_def)
    moreover have "zs ! i = (ys ! i)\<lparr>scr_name := scr_name (zs ! i)\<rparr>"
      using assms(2) that len by (simp add: only_renamed_def)
    ultimately show ?thesis
      by (metis screen.update_convs(2) screen.surjective screen.simps(8))
  qed
  with len show ?thesis
    by (simp add: only_renamed_def)
qed


lemma only_renamed_placeholder:
  "only_renamed (live_screens st) (live_screens (upsertScreen now (placeholder sid nm) options st))"
  and placeholder_present:
  "list_ex (\<lambda>s. scr_id s = Some sid) (live_screens (upsertScreen now (placeholder sid nm) options st))"
proof -
  show "only_renamed (live_screens st) (live_screens (upsertScreen now (placeholder sid nm) options st))"
    by (auto simp: live_placeholder only_renamed_def nth_append nth_list_update
        findIndex_Some_iff split: option.split)
  show "list_ex (\<lambda>s. scr_id s = Some sid) (live_screens (upsertScreen now (placeholder sid nm) options st))"
  proof (cases "findIndex (\<lambda>s. scr_id s = Some sid) (live_screens st)")
    case None
    then show ?thesis
      by (simp add: live_placeholder)
  next
    case (Some i)
    then have "i < length (live_screens st)" "scr_id (live_screens st ! i) = Some sid"
      by (simp_all add: findIndex_Some_iff)
    then show ?thesis
      using Some by (auto simp: live_placeholder list_ex_iff set_conv_nth nth_list_update
          intro!: exI [of _ i])
  qed
qed

lemma placeholder_step_refl: "placeholder_step st st"
  by (simp add: placeholder_step_def only_renamed_refl)

lemma placeholder_step_trans:
  assumes "placeholder_step st st1" and "placeholder_step st1 st2"
  shows "placeholder_step st st2"
  using assms by (auto simp: placeholder_step_def intro: only_renamed_trans)

lemma placeholder_step_flags:
  "placeholder_step st (setEditingScreenId v st)"
  "placeholder_step st (setIsDesigning b st)"
  by (simp_all add: placeholder_step_def only_renamed_refl)

lemma placeholder_step_upsert:
  "placeholder_step st (upsertScreen now (placeholder sid nm) skip_history st)"
proof -
  have "arrays (upsertScreen now (placeholder sid nm) skip_history st) a = arrays st a"
    if "a \<noteq> screens st" for a
    using that
    by (simp add: upsertScreen_def Let_def set_live_def skip_history_skips split: option.split)
  then show ?thesis
    by (simp add: placeholder_step_def history_upsertScreen next_addr_upsertScreen
        skip_history_skips only_renamed_placeholder)
qed

lemma placeholder_step_start_editing:
  "placeholder_step (project hs) (project (start_editing now cid sid nm hs))"
  unfolding project_start_editing
  by (rule placeholder_step_trans [OF placeholder_step_flags(1) placeholder_step_upsert])

lemma placeholder_step_clear_editing:
  "placeholder_step (project hs) (project (clear_editing cid hs))"
  unfolding project_clear_editing
  by (rule placeholder_step_trans [OF placeholder_step_flags(1) placeholder_step_flags(2)])

lemma handleChunk_placeholder_step:
  assumes "\<not> is_output c"
  shows "placeholder_step (project hs) (project (handleChunk now c hs))"
proof (cases c)
  case (ToolInputStart cid tn)
  show ?thesis
    unfolding ToolInputStart handleChunk_ToolInputStart
    by (simp add: placeholder_step_refl placeholder_step_flags)
next
  case (DataEditingStart screenId cid)
  show ?thesis
    using placeholder_step_start_editing
    by (auto simp: DataEditingStart placeholder_step_refl split: option.split)
next
  case (ToolInputAvailable cid tn input)
  show ?thesis
    unfolding ToolInputAvailable handleChunk_ToolInputAvailable
    using placeholder_step_start_editing
      [of "hs\<lparr>assistantMessage :=
            message_after (ToolInputAvailable cid tn input) (assistantMessage hs)\<rparr>"]
    by (simp add: Let_def placeholder_step_refl split: option.split)
next
  case (ToolOutputAvailable cid outp)
  with assms show ?thesis by simp
next
  case (ToolOutputError cid err)
  show ?thesis
    unfolding ToolOutputError handleChunk_ToolOutputError
    using placeholder_step_clear_editing
      [of "hs\<lparr>assistantMessage :=
            message_after (ToolOutputError cid err) (assistantMessage hs)\<rparr>"]
    by (simp add: Let_def placeholder_step_refl)
qed (simp_all add: placeholder_step_refl)






lemma handleChunks_name:
  assumes "find_invocation cid (assistantMessage hs) = Some ivc" and "truthy (toolName ivc)"
  shows "\<exists>ivc'. find_invocation cid (assistantMessage (handleChunks cs hs)) = Some ivc'
     \<and> toolName ivc' = toolName ivc"
  using assms
proof (induction cs arbitrary: hs ivc)
  case Nil
  then show ?case by simp
next
  case (Cons nc cs)
  obtain now c where nc: "nc = (now, c)"
    by (cases nc)
  from message_after_name [OF Cons.prems, of c] obtain ivc1 where
    ivc1: "find_invocation cid (assistantMessage (handleChunk now c hs)) = Some ivc1"
      "toolName ivc1 = toolName ivc"
    by (auto simp: handleChunk_message)
  with Cons.prems(2) have "truthy (toolName ivc1)"
    by simp
  from Cons.IH [OF ivc1(1) this] ivc1(2) show ?case
    by (simp add: nc)
qed





lemma handleChunk_other_event:
  assumes "find_invocation cid (assistantMessage hs) = Some ivc"
    and "lifecycle_call c \<noteq> Some cid"
  shows "\<exists>ivc'. find_invocation cid (assistantMessage (handleChunk now c hs)) = Some ivc'
     \<and> inv_state ivc' = inv_state ivc \<and> result ivc' = result ivc
     \<and> errorText ivc' = errorText ivc"
  using message_after_other [OF assms] by (auto simp: handleChunk_message)

lemma handleChunk_input_start_store:
  "project (handleChunk now (ToolInputStart cid tn) hs)
     = (if tn = ''upsertScreen'' then setIsDesigning True (project hs) else project hs)"
  "arrays (project (handleChunk now (ToolInputStart cid tn) hs)) = arrays (project hs)"
  "screens (project (handleChunk now (ToolInputStart cid tn) hs)) = screens (project hs)"
  "history (project (handleChunk now (ToolInputStart cid tn) hs)) = history (project hs)"
  unfolding handleChunk_ToolInputStart by simp_all

lemma handleChunk_editing_start_store:
  "project (handleChunk now (DataEditingStart (Some sid) (Some cid)) hs)
     = upsertScreen now (placeholder sid ''Designing...'') skip_history
         (setEditingScreenId (Some sid) (project hs))"
  "history (project (handleChunk now (DataEditingStart (Some sid) (Some cid)) hs))
     = history (project hs)"
  by (simp_all add: history_upsertScreen skip_history_skips)

lemma handleChunk_input_available_again:
  assumes "find_invocation cid (assistantMessage hs) = Some ivc"
  shows "\<exists>ivc1. find_invocation cid
            (assistantMessage (handleChunk now (ToolInputAvailable cid tn input) hs)) = Some ivc1
     \<and> inv_state ivc1 = Call \<and> args ivc1 = input
     \<and> result ivc1 = result ivc \<and> errorText ivc1 = errorText ivc
     \<and> toolName ivc1
         = (if truthy (Some tn) \<and> \<not> truthy (toolName ivc) then Some tn else toolName ivc)"
    and "project (handleChunk now (ToolInputAvailable cid tn input) hs)
      = (case input of
           None \<Rightarrow> project hs
         | Some i \<Rightarrow>
             (case in_id i of
                None \<Rightarrow> project hs
              | Some screenId \<Rightarrow>
                  if (if truthy (Some tn) \<and> \<not> truthy (toolName ivc) then Some tn
                      else toolName ivc) = Some ''upsertScreen''
                  then upsertScreen now
                         (placeholder screenId
                            (case in_name i of Some n \<Rightarrow> n | None \<Rightarrow> ''Untitled Screen''))
                         skip_history (setEditingScreenId (Some screenId) (project hs))
                  else project hs))"
    and "history (project (handleChunk now (ToolInputAvailable cid tn input) hs))
      = history (project hs)"
proof -
  from assms obtain invs where invs: "toolInvocations (assistantMessage hs) = Some invs"
    by (rule find_invocation_SomeD)
  note fields = getOrCreateInvocation_fst_fields [OF assms, of "Some tn"]
  have "find_invocation cid
      (assistantMessage (handleChunk now (ToolInputAvailable cid tn input) hs))
      = Some ((fst (getOrCreateInvocation cid (Some tn) (assistantMessage hs)))
          \<lparr>args := input, inv_state := Call\<rparr>)"
    using message_after_written(1) [OF invs, of cid tn input]
    by (simp add: handleChunk_message del: handleChunk.simps message_after.simps)
  then show "\<exists>ivc1. find_invocation cid
            (assistantMessage (handleChunk now (ToolInputAvailable cid tn input) hs)) = Some ivc1
     \<and> inv_state ivc1 = Call \<and> args ivc1 = input
     \<and> result ivc1 = result ivc \<and> errorText ivc1 = errorText ivc
     \<and> toolName ivc1
         = (if truthy (Some tn) \<and> \<not> truthy (toolName ivc) then Some tn else toolName ivc)"
    using fields(1-5,7) by (simp del: handleChunk.simps)
  show "project (handleChunk now (ToolInputAvailable cid tn input) hs)
      = (case input of
           None \<Rightarrow> project hs
         | Some i \<Rightarrow>
             (case in_id i of
                None \<Rightarrow> project hs
              | Some screenId \<Rightarrow>
                  if (if truthy (Some tn) \<and> \<not> truthy (toolName ivc) then Some tn
                      else toolName ivc) = Some ''upsertScreen''
                  then upsertScreen now
                         (placeholder screenId
                            (case in_name i of Some n \<Rightarrow> n | None \<Rightarrow> ''Untitled Screen''))
                         skip_history (setEditingScreenId (Some screenId) (project hs))
                  else project hs))"
    unfolding handleChunk_ToolInputAvailable fields(7)
    by (simp add: Let_def split: option.split)
  show "history (project (handleChunk now (ToolInputAvailable cid tn input) hs))
      = history (project hs)"
    using handleChunk_placeholder_step [of "ToolInputAvailable cid tn input" hs now]
    by (simp add: placeholder_step_def del: handleChunk.simps)
qed

lemma handleChunk_output_available_again:
  assumes "find_invocation cid (assistantMessage hs) = Some ivc"
  shows "\<exists>ivc1. find_invocation cid
            (assistantMessage (handleChunk now (ToolOutputAvailable cid outp) hs)) = Some ivc1
     \<and> inv_state ivc1 = Result \<and> result ivc1 = outp \<and> errorText ivc1 = errorText ivc
     \<and> toolName ivc1 = toolName ivc"
    and "project (handleChunk now (ToolOutputAvailable cid outp) hs)
      = (case outp of
           None \<Rightarrow> project hs
         | Some out \<Rightarrow>
             if toolName ivc = Some ''upsertScreen''
             then setIsDesigning False (setEditingScreenId None
                    (upsertScreen now (out_fields out) None (project hs)))
             else if toolName ivc = Some ''restoreVersion''
             then (case out_index out of
                     Some index \<Rightarrow> restoreVersion index (project hs)
                   | None \<Rightarrow> project hs)
             else project hs)"
proof -
  from assms obtain invs where invs: "toolInvocations (assistantMessage hs) = Some invs"
    by (rule find_invocation_SomeD)
  note fields = getOrCreateInvocation_fst_fields [OF assms, of None]
  have tn: "toolName (fst (getOrCreateInvocation cid None (assistantMessage hs))) = toolName ivc"
    using fields(7) by (simp add: truthy_def)
  have "find_invocation cid
      (assistantMessage (handleChunk now (ToolOutputAvailable cid outp) hs))
      = Some ((fst (getOrCreateInvocation cid None (assistantMessage hs)))
          \<lparr>inv_state := Result, result := outp\<rparr>)"
    using message_after_written(2) [OF invs, of cid outp]
    by (simp add: handleChunk_message del: handleChunk.simps message_after.simps)
  then show "\<exists>ivc1. find_invocation cid
            (assistantMessage (handleChunk now (ToolOutputAvailable cid outp) hs)) = Some ivc1
     \<and> inv_state ivc1 = Result \<and> result ivc1 = outp \<and> errorText ivc1 = errorText ivc
     \<and> toolName ivc1 = toolName ivc"
    using fields(1-5) tn by (simp del: handleChunk.simps)
  show "project (handleChunk now (ToolOutputAvailable cid outp) hs)
      = (case outp of
           None \<Rightarrow> project hs
         | Some out \<Rightarrow>
             if toolName ivc = Some ''upsertScreen''
             then setIsDesigning False (setEditingScreenId None
                    (upsertScreen now (out_fields out) None (project hs)))
             else if toolName ivc = Some ''restoreVersion''
             then (case out_index out of
                     Some index \<Rightarrow> restoreVersion index (project hs)
                   | None \<Rightarrow> project hs)
             else project hs)"
    unfolding handleChunk_ToolOutputAvailable tn
    by (simp add: Let_def split: option.split)
qed

lemma handleChunk_output_error_again:
  assumes "find_invocation cid (assistantMessage hs) = Some ivc"
  shows "\<exists>ivc1. find_invocation cid
            (assistantMessage (handleChunk now (ToolOutputError cid err) hs)) = Some ivc1
     \<and> inv_state ivc1 = Error \<and> errorText ivc1 = Some err \<and> result ivc1 = result ivc
     \<and> toolName ivc1 = toolName ivc"
    and "project (handleChunk now (ToolOutputError cid err) hs)
      = (if toolName ivc = Some ''upsertScreen''
         then setIsDesigning False (setEditingScreenId None (project hs))
         else project hs)"
proof -
  from assms obtain invs where invs: "toolInvocations (assistantMessage hs) = Some invs"
    by (rule find_invocation_SomeD)
  note fields = getOrCreateInvocation_fst_fields [OF assms, of None]
  have tn: "toolName (fst (getOrCreateInvocation cid None (assistantMessage hs))) = toolName ivc"
    using fields(7) by (simp add: truthy_def)
  have "find_invocation cid
      (assistantMessage (handleChunk now (ToolOutputError cid err) hs))
      = Some ((fst (getOrCreateInvocation cid None (assistantMessage hs)))
          \<lparr>inv_state := Error, errorText := Some err\<rparr>)"
    using message_after_written(3) [OF invs, of cid err]
    by (simp add: handleChunk_message del: handleChunk.simps message_after.simps)
  then show "\<exists>ivc1. find_invocation cid
            (assistantMessage (handleChunk now (ToolOutputError cid err) hs)) = Some ivc1
     \<and> inv_state ivc1 = Error \<and> errorText ivc1 = Some err \<and> result ivc1 = result ivc
     \<and> toolName ivc1 = toolName ivc"
    using fields(1-5) tn by (simp del: handleChunk.simps)
  show "project (handleChunk now (ToolOutputError cid err) hs)
      = (if toolName ivc = Some ''upsertScreen''
         then setIsDesigning False (setEditingScreenId None (project hs))
         else project hs)"
    unfolding handleChunk_ToolOutputError tn
    by (simp add: Let_def)
qed

lemma repeated_lifecycle_events:
  assumes found: "find_invocation cid (assistantMessage hs) = Some ivc"
    and terminal: "inv_state ivc = Result \<or> inv_state ivc = Error"
  shows "lifecycle_call c \<noteq> Some cid \<longrightarrow>
        (\<exists>ivc'. find_invocation cid (assistantMessage (handleChunk now c hs)) = Some ivc'
           \<and> inv_state ivc' = inv_state ivc \<and> result ivc' = result ivc
           \<and> errorText ivc' = errorText ivc)"
    and "arrays (project (handleChunk now (ToolInputStart cid tn) hs)) = arrays (project hs)
       \<and> screens (project (handleChunk now (ToolInputStart cid tn) hs)) = screens (project hs)
       \<and> history (project (handleChunk now (ToolInputStart cid tn) hs)) = history (project hs)"
    and "project (handleChunk now (DataEditingStart (Some sid) (Some cid)) hs)
           = upsertScreen now (placeholder sid ''Designing...'') skip_history
               (setEditingScreenId (Some sid) (project hs))
       \<and> history (project (handleChunk now (DataEditingStart (Some sid) (Some cid)) hs))
           = history (project hs)"
    and "\<exists>ivc1. find_invocation cid
              (assistantMessage (handleChunk now (ToolInputAvailable cid tn input) hs)) = Some ivc1
          \<and> inv_state ivc1 = Call \<and> inv_state ivc1 \<noteq> inv_state ivc \<and> args ivc1 = input
          \<and> result ivc1 = result ivc \<and> errorText ivc1 = errorText ivc
          \<and> toolName ivc1
              = (if truthy (Some tn) \<and> \<not> truthy (toolName ivc) then Some tn else toolName ivc)"
    and "project (handleChunk now (ToolInputAvailable cid tn input) hs)
      = (case input of
           None \<Rightarrow> project hs
         | Some i \<Rightarrow>
             (case in_id i of
                None \<Rightarrow> project hs
              | Some screenId \<Rightarrow>
                  if (if truthy (Some tn) \<and> \<not> truthy (toolName ivc) then Some tn
                      else toolName ivc) = Some ''upsertScreen''
                  then upsertScreen now
                         (placeholder screenId
                            (case in_name i of Some n \<Rightarrow> n | None \<Rightarrow> ''Untitled Screen''))
                         skip_history (setEditingScreenId (Some screenId) (project hs))
                  else project hs))"
    and "history (project (handleChunk now (ToolInputAvailable cid tn input) hs))
      = history (project hs)"
    and "\<exists>ivc1. find_invocation cid
              (assistantMessage (handleChunk now (ToolOutputAvailable cid outp) hs)) = Some ivc1
          \<and> inv_state ivc1 = Result \<and> result ivc1 = outp \<and> errorText ivc1 = errorText ivc
          \<and> toolName ivc1 = toolName ivc"
    and "project (handleChunk now (ToolOutputAvailable cid outp) hs)
      = (case outp of
           None \<Rightarrow> project hs
         | Some out \<Rightarrow>
             if toolName ivc = Some ''upsertScreen''
             then setIsDesigning False (setEditingScreenId None
                    (upsertScreen now (out_fields out) None (project hs)))
             else if toolName ivc = Some ''restoreVersion''
             then (case out_index out of
                     Some index \<Rightarrow> restoreVersion index (project hs)
                   | None \<Rightarrow> project hs)
             else project hs)"
    and "toolName ivc = Some ''upsertScreen'' \<longrightarrow>
         history (project (handleChunk now (ToolOutputAvailable cid (Some out)) hs))
           = history (project hs) @ [\<lparr>timestamp = now, hi_screens = next_addr (project hs)\<rparr>]"
    and "\<exists>ivc1. find_invocation cid
              (assistantMessage (handleChunk now (ToolOutputError cid err) hs)) = Some ivc1
          \<and> inv_state ivc1 = Error \<and> errorText ivc1 = Some err \<and> result ivc1 = result ivc
          \<and> toolName ivc1 = toolName ivc"
    and "project (handleChunk now (ToolOutputError cid err) hs)
      = (if toolName ivc = Some ''upsertScreen''
         then setIsDesigning False (setEditingScreenId None (project hs))
         else project hs)"
proof -
  show "lifecycle_call c \<noteq> Some cid \<longrightarrow>
        (\<exists>ivc'. find_invocation cid (assistantMessage (handleChunk now c hs)) = Some ivc'
           \<and> inv_state ivc' = inv_state ivc \<and> result ivc' = result ivc
           \<and> errorText ivc' = errorText ivc)"
    using handleChunk_other_event [OF found, of c now] by blast
  show "arrays (project (handleChunk now (ToolInputStart cid tn) hs)) = arrays (project hs)
       \<and> screens (project (handleChunk now (ToolInputStart cid tn) hs)) = screens (project hs)
       \<and> history (project (handleChunk now (ToolInputStart cid tn) hs)) = history (project hs)"
    using handleChunk_input_start_store(2-4) [of now cid tn hs] by blast
  show "project (handleChunk now (DataEditingStart (Some sid) (Some cid)) hs)
           = upsertScreen now (placeholder sid ''Designing...'') skip_history
               (setEditingScreenId (Some sid) (project hs))
       \<and> history (project (handleChunk now (DataEditingStart (Some sid) (Some cid)) hs))
           = history (project hs)"
    using handleChunk_editing_start_store [of now sid cid hs] by blast
  have "inv_state ivc \<noteq> Call"
    using terminal by auto
  with handleChunk_input_available_again(1) [OF found, of now tn input]
  show "\<exists>ivc1. find_invocation cid
              (assistantMessage (handleChunk now (ToolInputAvailable cid tn input) hs)) = Some ivc1
          \<and> inv_state ivc1 = Call \<and> inv_state ivc1 \<noteq> inv_state ivc \<and> args ivc1 = input
          \<and> result ivc1 = result ivc \<and> errorText ivc1 = errorText ivc
          \<and> toolName ivc1
              = (if truthy (Some tn) \<and> \<not> truthy (toolName ivc) then Some tn else toolName ivc)"
    by (auto simp del: handleChunk.simps)
  show "project (handleChunk now (ToolInputAvailable cid tn input) hs)
      = (case input of
           None \<Rightarrow> project hs
         | Some i \<Rightarrow>
             (case in_id i of
                None \<Rightarrow> project hs
              | Some screenId \<Rightarrow>
                  if (if truthy (Some tn) \<and> \<not> truthy (toolName ivc) then Some tn
                      else toolName ivc) = Some ''upsertScreen''
                  then upsertScreen now
                         (placeholder screenId
                            (case in_name i of Some n \<Rightarrow> n | None \<Rightarrow> ''Untitled Screen''))
                         skip_history (setEditingScreenId (Some screenId) (project hs))
                  else project hs))"
    by (rule handleChunk_input_available_again(2) [OF found])
  show "history (project (handleChunk now (ToolInputAvailable cid tn input) hs))
      = history (project hs)"
    by (rule handleChunk_input_available_again(3) [OF found])
  show "\<exists>ivc1. find_invocation cid
              (assistantMessage (handleChunk now (ToolOutputAvailable cid outp) hs)) = Some ivc1
          \<and> inv_state ivc1 = Result \<and> result ivc1 = outp \<and> errorText ivc1 = errorText ivc
          \<and> toolName ivc1 = toolName ivc"
    by (rule handleChunk_output_available_again(1) [OF found])
  show "project (handleChunk now (ToolOutputAvailable cid outp) hs)
      = (case outp of
           None \<Rightarrow> project hs
         | Some out \<Rightarrow>
             if toolName ivc = Some ''upsertScreen''
             then setIsDesigning False (setEditingScreenId None
                    (upsertScreen now (out_fields out) None (project hs)))
             else if toolName ivc = Some ''restoreVersion''
             then (case out_index out of
                     Some index \<Rightarrow> restoreVersion index (project hs)
                   | None \<Rightarrow> project hs)
             else project hs)"
    by (rule handleChunk_output_available_again(2) [OF found])
  show "toolName ivc = Some ''upsertScreen'' \<longrightarrow>
         history (project (handleChunk now (ToolOutputAvailable cid (Some out)) hs))
           = history (project hs) @ [\<lparr>timestamp = now, hi_screens = next_addr (project hs)\<rparr>]"
    unfolding handleChunk_output_available_again(2) [OF found]
    by (simp add: history_upsertScreen none_skips)
  show "\<exists>ivc1. find_invocation cid
              (assistantMessage (handleChunk now (ToolOutputError cid err) hs)) = Some ivc1
          \<and> inv_state ivc1 = Error \<and> errorText ivc1 = Some err \<and> result ivc1 = result ivc
          \<and> toolName ivc1 = toolName ivc"
    by (rule handleChunk_output_error_again(1) [OF found])
  show "project (handleChunk now (ToolOutputError cid err) hs)
      = (if toolName ivc = Some ''upsertScreen''
         then setIsDesigning False (setEditingScreenId None (project hs))
         else project hs)"
    by (rule handleChunk_output_error_again(2) [OF found])
qed

lemma initial_handler_fields [simp]:
  "project initial_handler = initial_project"
  "assistantMessage initial_handler = \<lparr>content = [], toolInvocations = Some []\<rparr>"
  by (simp_all add: initial_handler_def)

lemmas run_defs = getOrCreateInvocation_def created_invocation_def
  truthy_def write_invocation_def find_invocation_def Let_def history_upsertScreen none_skips
  skip_history_skips live_upsertScreen

lemma end_to_end_example:
  "(\<lambda>hs. (content (assistantMessage hs),
        map_option (map inv_state) (toolInvocations (assistantMessage hs)),
        map scr_id (live_screens (project hs)),
        length (history (project hs))))
     (handleChunks
        [(1, TextDelta ''Hi''),
         (2, ToolInputAvailable ''call1'' ''upsertScreen''
               (Some \<lparr>in_id = Some ''s1'', in_name = Some ''Login''\<rparr>)),
         (3, ToolOutputAvailable ''call1''
               (Some \<lparr>out_fields = login_output, out_index = None\<rparr>))]
        initial_handler)
   = (''Hi'', Some [Result], [Some ''welcome'', Some ''s1''], 1)"
  by (simp add: run_defs placeholder_def new_screen_def merge_screen_def login_output_def
      start_editing_def clear_editing_def findIndex_update_same_key)

lemma unchecked_output_example:
  "(\<lambda>hs. (map_option (map (\<lambda>i. (toolName i, inv_state i))) (toolInvocations (assistantMessage hs)),
        map scr_id (live_screens (project hs)),
        length (history (project hs))))
     (handleChunks
        [(1, ToolInputStart ''call1'' ''upsertScreen''),
         (2, ToolOutputAvailable ''call1'' (Some index_output)),
         (3, ToolOutputAvailable ''call1'' (Some index_output))]
        initial_handler)
   = (Some [(Some ''upsertScreen'', Result)], [Some ''welcome'', None], 2)"
  by (simp add: run_defs placeholder_def new_screen_def merge_screen_def index_output_def
      start_editing_def clear_editing_def findIndex_update_same_key)

subsection \<open>Claims on the tool event handler\<close>

text \<open>
  Claim C10. Once an entry of \<open>toolInvocations\<close> has a non-empty
  \<open>toolName\<close>, no sequence of chunks changes it. After any chunks, of whatever
  types, call ids, names, inputs and outputs, the message still has its invocation list,
  the entry at the same position has the same call id and the same name, and when the
  entry is the one \<open>getOrCreateInvocation\<close> finds for a call id, the invocation
  found for that call id afterwards has that name.
\<close>

theorem toolName_first_wins:
  assumes "toolInvocations (assistantMessage hs) = Some invs"
    and "i < length invs"
    and "toolName (invs ! i) = Some n" and "n \<noteq> []"
  shows "(\<exists>invs'. toolInvocations (assistantMessage (handleChunks cs hs)) = Some invs'
        \<and> i < length invs'
        \<and> toolCallId (invs' ! i) = toolCallId (invs ! i) \<and> toolName (invs' ! i) = Some n)
    \<and> (find_invocation cid (assistantMessage hs) = Some (invs ! i) \<longrightarrow>
        (\<exists>ivc'. find_invocation cid (assistantMessage (handleChunks cs hs)) = Some ivc'
           \<and> toolName ivc' = Some n))"
proof
  show "\<exists>invs'. toolInvocations (assistantMessage (handleChunks cs hs)) = Some invs'
        \<and> i < length invs'
        \<and> toolCallId (invs' ! i) = toolCallId (invs ! i) \<and> toolName (invs' ! i) = Some n"
    by (rule handleChunks_position_name [OF assms])
  have "truthy (toolName (invs ! i))"
    using assms(3,4) by (simp add: truthy_def)
  then show "find_invocation cid (assistantMessage hs) = Some (invs ! i) \<longrightarrow>
        (\<exists>ivc'. find_invocation cid (assistantMessage (handleChunks cs hs)) = Some ivc'
           \<and> toolName ivc' = Some n)"
    using handleChunks_name [of cid hs "invs ! i" cs] assms(3) by simp
qed

text \<open>
  C10 on an invocation named \<open>upsertScreen\<close>: four later chunks of the same call,
  which carry the name \<open>restoreVersion\<close> or none and the output
  \<open>{ index: 0 }\<close>, leave the name as it is.
\<close>

theorem toolName_first_wins_witness:
  "toolInvocations (assistantMessage example_handler)
      = Some [\<lparr>toolCallId = ''call1'', toolName = Some ''upsertScreen'', inv_state = Result,
          args = None, result = Some \<lparr>out_fields = login_output, out_index = None\<rparr>,
          errorText = None\<rparr>]
   \<and> (\<exists>invs'. toolInvocations (assistantMessage (handleChunks rename_stream example_handler))
          = Some invs'
        \<and> 0 < length invs' \<and> toolCallId (invs' ! 0) = ''call1''
        \<and> toolName (invs' ! 0) = Some ''upsertScreen'')
   \<and> (\<exists>ivc'. find_invocation ''call1''
          (assistantMessage (handleChunks rename_stream example_handler)) = Some ivc'
        \<and> toolName ivc' = Some ''upsertScreen'')"
proof -
  let ?ivc = "\<lparr>toolCallId = ''call1'', toolName = Some ''upsertScreen'', inv_state = Result,
          args = None, result = Some \<lparr>out_fields = login_output, out_index = None\<rparr>,
          errorText = None\<rparr>"
  have invs: "toolInvocations (assistantMessage example_handler) = Some [?ivc]"
    by (simp add: example_handler_def)
  have found: "find_invocation ''call1'' (assistantMessage example_handler) = Some ([?ivc] ! 0)"
    by (simp add: example_handler_def find_invocation_def)
  from toolName_first_wins [OF invs, of 0 "''upsertScreen''" rename_stream "''call1''"] invs found
  show ?thesis
    by simp
qed

text \<open>
  Claim C1 as stated fails. After \<open>tool-input-start\<close> and
  \<open>tool-output-available\<close> the invocation \<open>call1\<close> is in state
  \<open>result\<close>, the history has one item and the screen \<open>s1\<close> is named
  \<open>Login\<close>. A second \<open>tool-output-available\<close> for \<open>call1\<close>
  replaces the stored result and pushes a second history item; a
  \<open>tool-input-available\<close> for it sets the state back to \<open>call\<close> and
  renames the finished screen.
\<close>

theorem terminal_invocation_counterexample:
  "map_option inv_state (find_invocation ''call1''
        (assistantMessage (handleChunks example_stream initial_handler))) = Some Result
   \<and> map_option result (find_invocation ''call1''
        (assistantMessage (handleChunks example_stream initial_handler)))
      = Some (Some \<lparr>out_fields = login_output, out_index = None\<rparr>)
   \<and> length (history (project (handleChunks example_stream initial_handler))) = 1
   \<and> map scr_name (live_screens (project (handleChunks example_stream initial_handler)))
      = [''Welcome Screen'', ''Login'']
   \<and> map_option result (find_invocation ''call1'' (assistantMessage (handleChunks
        (example_stream @ [(3, ToolOutputAvailable ''call1''
            (Some \<lparr>out_fields = login_output2, out_index = None\<rparr>))])
        initial_handler)))
      = Some (Some \<lparr>out_fields = login_output2, out_index = None\<rparr>)
   \<and> login_output2 \<noteq> login_output
   \<and> length (history (project (handleChunks
        (example_stream @ [(3, ToolOutputAvailable ''call1''
            (Some \<lparr>out_fields = login_output2, out_index = None\<rparr>))])
        initial_handler))) = 2
   \<and> map_option inv_state (find_invocation ''call1'' (assistantMessage (handleChunks
        (example_stream @ [(3, ToolInputAvailable ''call1'' ''upsertScreen''
            (Some \<lparr>in_id = Some ''s1'', in_name = Some ''Renamed''\<rparr>))])
        initial_handler))) = Some Call
   \<and> map scr_name (live_screens (project (handleChunks
        (example_stream @ [(3, ToolInputAvailable ''call1'' ''upsertScreen''
            (Some \<lparr>in_id = Some ''s1'', in_name = Some ''Renamed''\<rparr>))])
        initial_handler)))
      = [''Welcome Screen'', ''Renamed'']"
  by (simp add: example_stream_def run_defs login_output_def login_output2_def
      placeholder_def new_screen_def merge_screen_def start_editing_def clear_editing_def
      findIndex_update_same_key)

text \<open>
  Claim C1, as amended. The handler has no guard for terminal states. For an invocation
  in state \<open>result\<close> or \<open>error\<close>, found for its call id:
  \<^item> every chunk other than a \<open>tool-input-available\<close>,
    \<open>tool-output-available\<close> or \<open>tool-output-error\<close> of the same call id
    leaves its state, result and error text unchanged;
  \<^item> a \<open>tool-input-start\<close> of the call writes no array, and neither the screens
    nor the history;
  \<^item> a \<open>data-editing-start\<close> of the call sets the editing pointer and upserts the
    placeholder \<open>Designing...\<close>, without a history item;
  \<^item> a further \<open>tool-input-available\<close> sets the state back to \<open>call\<close>,
    stores the input, and keeps result and error text; when the invocation is named
    \<open>upsertScreen\<close> and the input has a string \<open>id\<close>, it sets the editing
    pointer and upserts the placeholder again, so that a finished screen of that id is
    renamed to the input's name or \<open>Untitled Screen\<close>; otherwise the project is
    unchanged; in both cases the history is unchanged;
  \<^item> a further \<open>tool-output-available\<close> sets the state \<open>result\<close>, stores
    the new output and keeps the error text; for an invocation named
    \<open>upsertScreen\<close> and an output object it upserts the output again, pushes one
    more history item and clears the editing pointer and the designing flag; for one
    named \<open>restoreVersion\<close> it restores the version of the output's index again;
    otherwise the project is unchanged;
  \<^item> a further \<open>tool-output-error\<close> sets the state \<open>error\<close> and the error
    text and keeps the result; for \<open>upsertScreen\<close> it clears the editing pointer
    and the designing flag, and the store is not written.
\<close>

theorem terminal_invocation_events:
  assumes found: "find_invocation cid (assistantMessage hs) = Some ivc"
    and terminal: "inv_state ivc = Result \<or> inv_state ivc = Error"
  shows "(lifecycle_call c \<noteq> Some cid \<longrightarrow>
            (\<exists>ivc'. find_invocation cid (assistantMessage (handleChunk now c hs)) = Some ivc'
               \<and> inv_state ivc' = inv_state ivc \<and> result ivc' = result ivc
               \<and> errorText ivc' = errorText ivc))
    \<and> (arrays (project (handleChunk now (ToolInputStart cid tn) hs)) = arrays (project hs)
           \<and> screens (project (handleChunk now (ToolInputStart cid tn) hs)) = screens (project hs)
           \<and> history (project (handleChunk now (ToolInputStart cid tn) hs)) = history (project hs))
    \<and> (project (handleChunk now (DataEditingStart (Some sid) (Some cid)) hs)
               = upsertScreen now (placeholder sid ''Designing...'') skip_history
                   (setEditingScreenId (Some sid) (project hs))
           \<and> history (project (handleChunk now (DataEditingStart (Some sid) (Some cid)) hs))
               = history (project hs))
    \<and> (\<exists>ivc1. find_invocation cid
                  (assistantMessage (handleChunk now (ToolInputAvailable cid tn input) hs)) = Some ivc1
              \<and> inv_state ivc1 = Call \<and> inv_state ivc1 \<noteq> inv_state ivc \<and> args ivc1 = input
              \<and> result ivc1 = result ivc \<and> errorText ivc1 = errorText ivc
              \<and> toolName ivc1
                  = (if truthy (Some tn) \<and> \<not> truthy (toolName ivc) then Some tn else toolName ivc))
    \<and> (project (handleChunk now (ToolInputAvailable cid tn input) hs)
          = (case input of
               None \<Rightarrow> project hs
             | Some i \<Rightarrow>
                 (case in_id i of
                    None \<Rightarrow> project hs
                  | Some screenId \<Rightarrow>
                      if (if truthy (Some tn) \<and> \<not> truthy (toolName ivc) then Some tn
                          else toolName ivc) = Some ''upsertScreen''
                      then upsertScreen now
                             (placeholder screenId
                                (case in_name i of Some n \<Rightarrow> n | None \<Rightarrow> ''Untitled Screen''))
                             skip_history (setEditingScreenId (Some screenId) (project hs))
                      else project hs)))
    \<and> (history (project (handleChunk now (ToolInputAvailable cid tn input) hs))
          = history (project hs))
    \<and> (\<exists>ivc1. find_invocation cid
                  (assistantMessage (handleChunk now (ToolOutputAvailable cid outp) hs)) = Some ivc1
              \<and> inv_state ivc1 = Result \<and> result ivc1 = outp \<and> errorText ivc1 = errorText ivc
              \<and> toolName ivc1 = toolName ivc)
    \<and> (project (handleChunk now (ToolOutputAvailable cid outp) hs)
          = (case outp of
               None \<Rightarrow> project hs
             | Some out \<Rightarrow>
                 if toolName ivc = Some ''upsertScreen''
                 then setIsDesigning False (setEditingScreenId None
                        (upsertScreen now (out_fields out) None (project hs)))
                 else if toolName ivc = Some ''restoreVersion''
                 then (case out_index out of
                         Some index \<Rightarrow> restoreVersion index (project hs)
                       | None \<Rightarrow> project hs)
                 else project hs))
    \<and> (toolName ivc = Some ''upsertScreen'' \<longrightarrow>
             history (project (handleChunk now (ToolOutputAvailable cid (Some out)) hs))
               = history (project hs) @ [\<lparr>timestamp = now, hi_screens = next_addr (project hs)\<rparr>])
    \<and> (\<exists>ivc1. find_invocation cid
                  (assistantMessage (handleChunk now (ToolOutputError cid err) hs)) = Some ivc1
              \<and> inv_state ivc1 = Error \<and> errorText ivc1 = Some err \<and> result ivc1 = result ivc
              \<and> toolName ivc1 = toolName ivc)
    \<and> (project (handleChunk now (ToolOutputError cid err) hs)
          = (if toolName ivc = Some ''upsertScreen''
             then setIsDesigning False (setEditingScreenId None (project hs))
             else project hs))"
  by (intro repeated_lifecycle_events [OF assms] conjI)

text \<open>
  The amended C1 on an invocation named \<open>upsertScreen\<close> in state
  \<open>result\<close>: a text chunk leaves it, an error chunk turns it to \<open>error\<close>, an
  input chunk upserts the placeholder, and an output chunk upserts and pushes a history
  item, whatever the shape of the output.
\<close>

theorem terminal_invocation_events_witness:
  "find_invocation ''call1'' (assistantMessage example_handler)
      = Some \<lparr>toolCallId = ''call1'', toolName = Some ''upsertScreen'', inv_state = Result,
          args = None, result = Some \<lparr>out_fields = login_output, out_index = None\<rparr>,
          errorText = None\<rparr>
   \<and> (\<exists>ivc'. find_invocation ''call1''
            (assistantMessage (handleChunk 9 (TextDelta ''x'') example_handler)) = Some ivc'
         \<and> inv_state ivc' = Result
         \<and> result ivc' = Some \<lparr>out_fields = login_output, out_index = None\<rparr>)
   \<and> (\<exists>ivc1. find_invocation ''call1''
            (assistantMessage (handleChunk 9 (ToolOutputError ''call1'' ''boom'') example_handler))
            = Some ivc1
         \<and> inv_state ivc1 = Error \<and> errorText ivc1 = Some ''boom''
         \<and> result ivc1 = Some \<lparr>out_fields = login_output, out_index = None\<rparr>)
   \<and> project (handleChunk 9 (ToolInputAvailable ''call1'' ''restoreVersion''
          (Some \<lparr>in_id = Some ''s1'', in_name = None\<rparr>)) example_handler)
      = upsertScreen 9 (placeholder ''s1'' ''Untitled Screen'') skip_history
          (setEditingScreenId (Some ''s1'') initial_project)
   \<and> project (handleChunk 9 (ToolOutputAvailable ''call1'' (Some index_output)) example_handler)
      = setIsDesigning False (setEditingScreenId None
          (upsertScreen 9 (out_fields index_output) None initial_project))
   \<and> length (history (project (handleChunk 9 (ToolOutputAvailable ''call1''
          (Some \<lparr>out_fields = login_output2, out_index = None\<rparr>)) example_handler))) = 1"
proof -
  let ?ivc = "\<lparr>toolCallId = ''call1'', toolName = Some ''upsertScreen'', inv_state = Result,
          args = None, result = Some \<lparr>out_fields = login_output, out_index = None\<rparr>,
          errorText = None\<rparr>"
  have found: "find_invocation ''call1'' (assistantMessage example_handler) = Some ?ivc"
    by (simp add: example_handler_def find_invocation_def)
  have terminal: "inv_state ?ivc = Result \<or> inv_state ?ivc = Error"
    by simp
  have proj: "project example_handler = initial_project"
    by (simp add: example_handler_def)
  note events = terminal_invocation_events [OF found terminal,
      where now = 9 and c = "TextDelta ''x''" and err = "''boom''"
        and tn = "''restoreVersion''" and sid = "''s1''"
        and input = "Some \<lparr>in_id = Some ''s1'', in_name = None\<rparr>"
        and outp = "Some index_output"
        and out = "\<lparr>out_fields = login_output2, out_index = None\<rparr>"]
  note rest4 = events [THEN conjunct2, THEN conjunct2, THEN conjunct2, THEN conjunct2]
  note rest7 = rest4 [THEN conjunct2, THEN conjunct2, THEN conjunct2]
  from events [THEN conjunct1]
  have other: "\<exists>ivc'. find_invocation ''call1''
            (assistantMessage (handleChunk 9 (TextDelta ''x'') example_handler)) = Some ivc'
         \<and> inv_state ivc' = Result
         \<and> result ivc' = Some \<lparr>out_fields = login_output, out_index = None\<rparr>"
    by (auto simp del: handleChunk.simps)
  from rest7 [THEN conjunct2, THEN conjunct2, THEN conjunct1]
  have err: "\<exists>ivc1. find_invocation ''call1''
            (assistantMessage (handleChunk 9 (ToolOutputError ''call1'' ''boom'') example_handler))
            = Some ivc1
         \<and> inv_state ivc1 = Error \<and> errorText ivc1 = Some ''boom''
         \<and> result ivc1 = Some \<lparr>out_fields = login_output, out_index = None\<rparr>"
    by (auto simp del: handleChunk.simps)
  from rest4 [THEN conjunct1]
  have inp: "project (handleChunk 9 (ToolInputAvailable ''call1'' ''restoreVersion''
          (Some \<lparr>in_id = Some ''s1'', in_name = None\<rparr>)) example_handler)
      = upsertScreen 9 (placeholder ''s1'' ''Untitled Screen'') skip_history
          (setEditingScreenId (Some ''s1'') initial_project)"
    by (simp del: handleChunk.simps add: proj truthy_def)
  from rest7 [THEN conjunct1]
  have outp: "project (handleChunk 9 (ToolOutputAvailable ''call1'' (Some index_output))
          example_handler)
      = setIsDesigning False (setEditingScreenId None
          (upsertScreen 9 (out_fields index_output) None initial_project))"
    by (simp del: handleChunk.simps add: proj)
  from rest7 [THEN conjunct2, THEN conjunct1]
  have "history (project (handleChunk 9 (ToolOutputAvailable ''call1''
          (Some \<lparr>out_fields = login_output2, out_index = None\<rparr>)) example_handler))
      = history (project example_handler)
          @ [\<lparr>timestamp = 9, hi_screens = next_addr (project example_handler)\<rparr>]"
    by (simp del: handleChunk.simps)
  then have hist: "length (history (project (handleChunk 9 (ToolOutputAvailable ''call1''
          (Some \<lparr>out_fields = login_output2, out_index = None\<rparr>)) example_handler))) = 1"
    by (simp del: handleChunk.simps add: proj)
  from found other err inp outp hist show ?thesis
    by blast
qed




section \<open>The stream parser: proofs\<close>

lemma indexOf_bound:
  assumes "indexOf pat xs = Some i"
  shows "i + length pat \<le> length xs"
  using assms
proof (induction xs arbitrary: i)
  case Nil
  then show ?case by (simp split: if_splits)
next
  case (Cons x xs)
  show ?case
  proof (cases "prefix pat (x # xs)")
    case True
    with Cons.prems have "i = 0" by simp
    with prefix_length_le [OF True] show ?thesis by simp
  next
    case False
    with Cons.prems obtain j where "indexOf pat xs = Some j" "i = Suc j"
      by auto
    with Cons.IH [of j] show ?thesis by simp
  qed
qed

lemma indexOf_append:
  assumes "indexOf pat xs = Some i"
  shows "indexOf pat (xs @ ys) = Some i"
  using assms
proof (induction xs arbitrary: i)
  case Nil
  then show ?case by (cases ys) (simp_all split: if_splits)
next
  case (Cons x xs)
  show ?case
  proof (cases "prefix pat (x # xs)")
    case True
    with Cons.prems have "i = 0" by simp
    moreover from True have "prefix pat ((x # xs) @ ys)"
      by (rule prefix_prefix)
    ultimately show ?thesis by simp
  next
    case False
    with Cons.prems obtain j where j: "indexOf pat xs = Some j" "i = Suc j"
      by auto
    have "length pat \<le> length xs"
      using indexOf_bound [OF j(1)] by simp
    then have "\<not> prefix pat ((x # xs) @ ys)"
      using False prefix_length_prefix [of pat "(x # xs) @ ys" "x # xs"] by auto
    with j Cons.IH [of j] show ?thesis by simp
  qed
qed

lemma process_events_append:
  "process_events (a @ b) =
     (case process_events a of
        (ps, r, d) \<Rightarrow>
          if d then (ps, r @ b, True)
          else (case process_events (r @ b) of (ps', r', d') \<Rightarrow> (ps @ ps', r', d')))"
proof (induction a rule: process_events.induct)
  case (1 buffer)
  show ?case
  proof (cases "indexOf separator buffer")
    case None
    then have "process_events buffer = ([], buffer, False)"
      by (simp add: process_events.simps [of buffer])
    then show ?thesis by simp
  next
    case (Some i)
    have bound: "i + 2 \<le> length buffer"
      using indexOf_bound [OF Some] by (simp add: separator_def)
    have idx: "indexOf separator (buffer @ b) = Some i"
      using Some by (rule indexOf_append)
    have tk: "take i (buffer @ b) = take i buffer"
      and dr: "drop (Suc (Suc i)) (buffer @ b) = drop (Suc (Suc i)) buffer @ b"
      using bound by simp_all
    show ?thesis
    proof (cases "event_data (take i buffer)")
      case None
      have "process_events buffer = process_events (drop (i + 2) buffer)"
        using Some None by (simp add: process_events.simps [of buffer])
      moreover have "process_events (buffer @ b) = process_events (drop (i + 2) buffer @ b)"
        using idx None
          by (simp add: process_events.simps [of "buffer @ b"] tk dr del: take_append drop_append)
      ultimately show ?thesis
        using "1.IH"(1) [OF Some None] by simp
    next
      case data: (Some data)
      show ?thesis
      proof (cases "data = ''[DONE]''")
        case True
        have "process_events buffer = ([], drop (i + 2) buffer, True)"
          using Some data True by (simp add: process_events.simps [of buffer])
        moreover have "process_events (buffer @ b) = ([], drop (i + 2) buffer @ b, True)"
          using idx data True
          by (simp add: process_events.simps [of "buffer @ b"] tk dr del: take_append drop_append)
        ultimately show ?thesis by simp
      next
        case False
        have one: "process_events buffer =
            (case process_events (drop (i + 2) buffer) of
               (ps, r, d) \<Rightarrow> (data # ps, r, d))"
          using Some data False by (simp add: process_events.simps [of buffer])
        have two: "process_events (buffer @ b) =
            (case process_events (drop (i + 2) buffer @ b) of
               (ps, r, d) \<Rightarrow> (data # ps, r, d))"
          using idx data False
          by (simp add: process_events.simps [of "buffer @ b"] tk dr del: take_append drop_append)
        show ?thesis
          unfolding one two "1.IH"(2) [OF Some data False]
          by (simp split: prod.split)
      qed
    qed
  qed
qed

lemma process_events_drained:
  assumes "process_events a = (ps, r, False)"
  shows "indexOf separator r = None"
  using assms
proof (induction a arbitrary: ps rule: process_events.induct)
  case (1 buffer)
  show ?case
  proof (cases "indexOf separator buffer")
    case None
    with "1.prems" show ?thesis
      by (simp add: process_events.simps [of buffer])
  next
    case (Some i)
    show ?thesis
    proof (cases "event_data (take i buffer)")
      case None
      with Some "1.prems" have "process_events (drop (i + 2) buffer) = (ps, r, False)"
        by (simp add: process_events.simps [of buffer])
      then show ?thesis
        by (rule "1.IH"(1) [OF Some None])
    next
      case data: (Some data)
      with Some "1.prems" have nd: "data \<noteq> ''[DONE]''"
        by (auto simp: process_events.simps [of buffer])
      with Some data "1.prems" obtain ps' where
        "process_events (drop (i + 2) buffer) = (ps', r, False)"
        by (auto simp: process_events.simps [of buffer] split: prod.splits)
      then show ?thesis
        by (rule "1.IH"(2) [OF Some data nd])
    qed
  qed
qed

lemma process_events_no_separator:
  assumes "indexOf separator a = None"
  shows "process_events a = ([], a, False)"
  using assms by (simp add: process_events.simps [of a])

lemma strip_cr_append [simp]: "strip_cr (s @ t) = strip_cr s @ strip_cr t"
  by (simp add: strip_cr_def)

lemma read_loop_whole:
  assumes "indexOf separator buffer = None"
  shows "read_loop dec d buffer chunks
    = fst (process_events (buffer @ strip_cr (decode_all dec d chunks)))"
  using assms
proof (induction chunks arbitrary: d buffer)
  case Nil
  then show ?case by (simp add: process_events_no_separator strip_cr_def)
next
  case (Cons v rest)
  obtain d' decoded where dec: "dec d v = (d', decoded)"
    by (cases "dec d v")
  obtain ps r fin where pe: "process_events (buffer @ strip_cr decoded) = (ps, r, fin)"
    by (cases "process_events (buffer @ strip_cr decoded)")
  have whole: "process_events (buffer @ strip_cr (decode_all dec d (v # rest)))
      = process_events ((buffer @ strip_cr decoded) @ strip_cr (decode_all dec d' rest))"
    by (simp add: dec)
  show ?case
  proof (cases fin)
    case True
    then show ?thesis
      unfolding whole process_events_append [of "buffer @ strip_cr decoded"]
      by (simp add: dec pe)
  next
    case False
    with pe have "indexOf separator r = None"
      by (auto intro: process_events_drained)
    then have "read_loop dec d' r rest = fst (process_events (r @ strip_cr (decode_all dec d' rest)))"
      by (rule Cons.IH)
    with False show ?thesis
      unfolding whole process_events_append [of "buffer @ strip_cr decoded"]
      by (simp add: dec pe split: prod.split)
  qed
qed

lemma decode_all_concat:
  assumes "streaming_decoder dec"
  shows "decode_all dec d chunks = snd (dec d (concat chunks))"
proof (induction chunks arbitrary: d)
  case Nil
  from assms show ?case by (simp add: streaming_decoder_def)
next
  case (Cons v rest)
  obtain d' decoded where dec: "dec d v = (d', decoded)"
    by (cases "dec d v")
  from assms have "dec d (v @ concat rest) =
      (case dec d v of (d1, t1) \<Rightarrow> (case dec d1 (concat rest) of (d2, t2) \<Rightarrow> (d2, t1 @ t2)))"
    unfolding streaming_decoder_def by blast
  then have "snd (dec d (v @ concat rest)) = decoded @ snd (dec d' (concat rest))"
    by (simp add: dec split: prod.split)
  with Cons.IH [of d'] show ?case
    by (simp add: dec)
qed

lemma parseSSEStream_whole:
  assumes "streaming_decoder dec"
  shows "parseSSEStream dec d0 chunks
    = fst (process_events (strip_cr (snd (dec d0 (concat chunks)))))"
proof -
  have "indexOf separator [] = None"
    by (simp add: separator_def)
  then have "read_loop dec d0 [] chunks
      = fst (process_events ([] @ strip_cr (decode_all dec d0 chunks)))"
    by (rule read_loop_whole)
  then show ?thesis
    using decode_all_concat [OF assms, of d0 chunks] by (simp add: parseSSEStream_def)
qed

lemma streaming_latin1_decoder: "streaming_decoder latin1_decoder"
  by (simp add: streaming_decoder_def latin1_decoder_def)

lemma concat_singletons: "concat (map (\<lambda>b. [b]) xs) = xs"
  by (induction xs) simp_all

lemma latin1_ascii: "latin1_decoder d (ascii_bytes s) = (d, s)"
proof -
  have "char_of (unat (of_char c :: byte)) = c" for c :: char
  proof -
    have "(of_char c :: byte) = of_nat (of_char c)"
      by (simp add: of_nat_of_char)
    then have "unat (of_char c :: byte) = take_bit 8 (of_char c :: nat)"
      by (simp only: unsigned_of_nat) simp
    then show ?thesis
      by (simp add: char_of_take_bit_eq)
  qed
  then show ?thesis
    by (simp add: latin1_decoder_def ascii_bytes_def comp_def map_idI)
qed

lemma example_chunks_payloads:
  "parseSSEStream latin1_decoder () example_chunks = [''{}'']"
  by (simp add: parseSSEStream_def example_chunks_def latin1_ascii strip_cr_def
      carriage_return_def newline_def separator_def process_events.simps
      event_data_def trimStart_def is_js_space_def)

subsection \<open>Claim on the stream parser\<close>

text \<open>
  Claim C3. With a streaming decoder, two sequences of byte chunks that concatenate to
  the same bytes yield the same sequence of payloads: one chunk, one byte per chunk, or
  any split in the middle of a line or of a separator.
\<close>

theorem parseSSEStream_chunking:
  assumes "streaming_decoder dec" and "concat chunks = concat chunks'"
  shows "parseSSEStream dec d0 chunks = parseSSEStream dec d0 chunks'"
  using assms by (simp add: parseSSEStream_whole)

text \<open>
  C3 on four chunks that split a carriage return, the separator and the sentinel: as
  one chunk and byte by byte they yield the payload \<open>{}\<close> and stop at
  \<open>[DONE]\<close>.
\<close>

theorem parseSSEStream_chunking_witness:
  "streaming_decoder latin1_decoder
   \<and> concat example_chunks = concat [concat example_chunks]
   \<and> concat (map (\<lambda>b. [b]) (concat example_chunks)) = concat example_chunks
   \<and> parseSSEStream latin1_decoder () [concat example_chunks] = [''{}'']
   \<and> parseSSEStream latin1_decoder () (map (\<lambda>b. [b]) (concat example_chunks)) = [''{}'']"
proof -
  have one: "concat example_chunks = concat [concat example_chunks]"
    by simp
  have each: "concat (map (\<lambda>b. [b]) (concat example_chunks)) = concat example_chunks"
    by (rule concat_singletons)
  from parseSSEStream_chunking [OF streaming_latin1_decoder one, of "()"]
    parseSSEStream_chunking [OF streaming_latin1_decoder each, of "()"]
    streaming_latin1_decoder one each example_chunks_payloads
  show ?thesis by simp
qed

section \<open>The partial argument extractor: proofs\<close>

lemma step_latched:
  assumes "cid \<in> sentEditingStart st"
  shows "written (onUpsertInputDelta cid delta st) = written st"
    and "sentEditingStart (onUpsertInputDelta cid delta st) = sentEditingStart st"
  using assms by (simp_all add: onUpsertInputDelta_def Let_def)

lemma step_buffer:
  "input_buffer (onUpsertInputDelta c delta st) cid =
     (if c = cid then input_buffer st cid @ delta else input_buffer st cid)"
  by (simp add: onUpsertInputDelta_def Let_def input_buffer_def split: option.split)

lemma step_other:
  assumes "c \<noteq> cid"
  shows "signals cid (onUpsertInputDelta c delta st) = signals cid st"
    and "cid \<in> sentEditingStart (onUpsertInputDelta c delta st) \<longleftrightarrow> cid \<in> sentEditingStart st"
  using assms by (simp_all add: onUpsertInputDelta_def Let_def signals_def split: option.split)

lemma step_fresh:
  assumes "cid \<notin> sentEditingStart st"
  shows "written (onUpsertInputDelta cid delta st) =
      (case id_match (input_buffer st cid @ delta) of
         Some v \<Rightarrow> written st @ [\<lparr>es_screenId = v, es_toolCallId = cid\<rparr>]
       | None \<Rightarrow> written st)"
    and "cid \<in> sentEditingStart (onUpsertInputDelta cid delta st)
      \<longleftrightarrow> id_match (input_buffer st cid @ delta) \<noteq> None"
  using assms
  by (auto simp: onUpsertInputDelta_def Let_def input_buffer_def split: option.split)

lemma run_latched:
  assumes "cid \<in> sentEditingStart st"
  shows "signals cid (onUpsertInputDeltas ds st) = signals cid st"
  using assms
proof (induction ds arbitrary: st)
  case Nil
  then show ?case by simp
next
  case (Cons cd ds)
  obtain c delta where cd: "cd = (c, delta)"
    by (cases cd)
  have "cid \<in> sentEditingStart (onUpsertInputDelta c delta st)"
    using Cons.prems step_latched(2) [of cid st delta] step_other(2) [of c cid delta st]
    by (cases "c = cid") simp_all
  moreover have "signals cid (onUpsertInputDelta c delta st) = signals cid st"
    using Cons.prems step_latched(1) [of cid st delta] step_other(1) [of c cid delta st]
    by (cases "c = cid") (simp_all add: signals_def)
  ultimately show ?case
    using Cons.IH [of "onUpsertInputDelta c delta st"] by (simp add: cd)
qed

lemma run_fresh:
  assumes "cid \<notin> sentEditingStart st"
  shows "signals cid (onUpsertInputDeltas ds st) =
     signals cid st @
       (case first_match (input_buffer st cid) (deltas_of cid ds) of
          Some v \<Rightarrow> [\<lparr>es_screenId = v, es_toolCallId = cid\<rparr>]
        | None \<Rightarrow> [])"
  using assms
proof (induction ds arbitrary: st)
  case Nil
  then show ?case by simp
next
  case (Cons cd ds)
  obtain c delta where cd: "cd = (c, delta)"
    by (cases cd)
  let ?st1 = "onUpsertInputDelta c delta st"
  show ?case
  proof (cases "c = cid")
    case False
    then have "cid \<notin> sentEditingStart ?st1" and "signals cid ?st1 = signals cid st"
      and "input_buffer ?st1 cid = input_buffer st cid"
      using Cons.prems step_other [of c cid delta st] by (simp_all add: step_buffer)
    with Cons.IH [of ?st1] False show ?thesis
      by (simp add: cd)
  next
    case True
    show ?thesis
    proof (cases "id_match (input_buffer st cid @ delta)")
      case None
      then have "cid \<notin> sentEditingStart ?st1" and "signals cid ?st1 = signals cid st"
        and "input_buffer ?st1 cid = input_buffer st cid @ delta"
        using Cons.prems step_fresh [of cid st delta] True
        by (simp_all add: step_buffer signals_def)
      with Cons.IH [of ?st1] True None show ?thesis
        by (simp add: cd)
    next
      case (Some v)
      then have "cid \<in> sentEditingStart ?st1"
        and "signals cid ?st1 = signals cid st @ [\<lparr>es_screenId = v, es_toolCallId = cid\<rparr>]"
        using Cons.prems step_fresh [of cid st delta] True
        by (simp_all add: signals_def)
      with run_latched [of cid ?st1 ds] True Some show ?thesis
        by (simp add: cd)
    qed
  qed
qed

lemma dropWhile_spaces:
  assumes "list_all P ws" and "\<not> P c"
  shows "dropWhile P (ws @ c # rest) = c # rest"
  using assms by (induction ws) simp_all

lemma takeWhile_value:
  assumes "list_all P v" and "\<not> P c"
  shows "takeWhile P (v @ c # rest) = v" and "dropWhile P (v @ c # rest) = c # rest"
  using assms by (induction v) simp_all

lemma dropWhile_eq_ConsD:
  assumes "dropWhile P xs = c # rest"
  shows "xs = takeWhile P xs @ c # rest" and "list_all P (takeWhile P xs)" and "\<not> P c"
proof -
  show "xs = takeWhile P xs @ c # rest"
    using assms takeWhile_dropWhile_id [of P xs] by simp
  show "list_all P (takeWhile P xs)"
    by (simp add: list_all_iff) (meson set_takeWhileD)
  show "\<not> P c"
    using assms hd_dropWhile [of P xs] by auto
qed

lemma not_space_colon: "\<not> is_js_space (CHR '':'')" and not_space_dquote: "\<not> is_js_space dquote"
  by (simp_all add: is_js_space_def dquote_def)

lemma match_here_iff: "match_here s = Some v \<longleftrightarrow> id_occurrence s v"
proof
  assume m: "match_here s = Some v"
  let ?key = "[dquote, CHR ''i'', CHR ''d'', dquote]"
  from m have pre: "prefix ?key s"
    by (simp add: match_here_def split: if_splits)
  then obtain s1 where s: "s = ?key @ s1"
    by (auto simp: prefix_def)
  from m pre s obtain r where r: "dropWhile is_js_space s1 = CHR '':'' # r"
    by (auto simp: match_here_def split: if_splits list.splits)
  from m pre s r obtain v0 where v0: "dropWhile is_js_space r = dquote # v0"
    by (auto simp: match_here_def split: if_splits list.splits)
  from m pre s r v0 have v: "v = takeWhile (\<lambda>c. c \<noteq> dquote) v0" "v \<noteq> []"
      "dropWhile (\<lambda>c. c \<noteq> dquote) v0 \<noteq> []"
    by (auto simp: match_here_def split: if_splits)
  then obtain c rest where cr: "dropWhile (\<lambda>c. c \<noteq> dquote) v0 = c # rest"
    by (cases "dropWhile (\<lambda>c. c \<noteq> dquote) v0") auto
  note d1 = dropWhile_eq_ConsD [OF r]
  note d2 = dropWhile_eq_ConsD [OF v0]
  note d3 = dropWhile_eq_ConsD [OF cr]
  have c: "c = dquote"
    using d3(3) by simp
  have "s = ?key @ takeWhile is_js_space s1 @ [CHR '':''] @ takeWhile is_js_space r
      @ [dquote] @ v @ [dquote] @ rest"
    using s d1(1) d2(1) d3(1) v(1) c by simp
  with d1(2) d2(2) d3(2) v show "id_occurrence s v"
    unfolding id_occurrence_def by blast
next
  assume "id_occurrence s v"
  then obtain ws1 ws2 rest where
    s: "s = [dquote, CHR ''i'', CHR ''d'', dquote] @ ws1 @ [CHR '':''] @ ws2
              @ [dquote] @ v @ [dquote] @ rest"
    and ws: "list_all is_js_space ws1" "list_all is_js_space ws2"
    and v: "v \<noteq> []" "list_all (\<lambda>c. c \<noteq> dquote) v"
    unfolding id_occurrence_def by blast
  have 1: "dropWhile is_js_space (ws1 @ CHR '':'' # ws2 @ dquote # v @ dquote # rest)
      = CHR '':'' # ws2 @ dquote # v @ dquote # rest"
    using ws(1) not_space_colon by (rule dropWhile_spaces)
  have 2: "dropWhile is_js_space (ws2 @ dquote # v @ dquote # rest) = dquote # v @ dquote # rest"
    using ws(2) not_space_dquote by (rule dropWhile_spaces)
  have 3: "takeWhile (\<lambda>c. c \<noteq> dquote) (v @ dquote # rest) = v"
      "dropWhile (\<lambda>c. c \<noteq> dquote) (v @ dquote # rest) = dquote # rest"
    using takeWhile_value [OF v(2), of dquote rest] by simp_all
  show "match_here s = Some v"
    using v(1) by (simp add: s match_here_def 1 2 3)
qed

lemma id_match_iff:
  "id_match s = Some v \<longleftrightarrow>
     (\<exists>k\<le>length s. id_occurrence (drop k s) v \<and> (\<forall>j<k. \<forall>w. \<not> id_occurrence (drop j s) w))"
proof (induction s)
  case Nil
  then show ?case by (simp add: match_here_iff)
next
  case (Cons c cs)
  show ?case
  proof (cases "match_here (c # cs)")
    case (Some w)
    then have occ: "id_occurrence (c # cs) w"
      by (simp add: match_here_iff)
    have "(\<exists>k\<le>length (c # cs). id_occurrence (drop k (c # cs)) v
        \<and> (\<forall>j<k. \<forall>w. \<not> id_occurrence (drop j (c # cs)) w)) \<longleftrightarrow> v = w"
    proof
      assume "\<exists>k\<le>length (c # cs). id_occurrence (drop k (c # cs)) v
        \<and> (\<forall>j<k. \<forall>w. \<not> id_occurrence (drop j (c # cs)) w)"
      then obtain k where k: "id_occurrence (drop k (c # cs)) v"
        "\<forall>j<k. \<forall>w. \<not> id_occurrence (drop j (c # cs)) w"
        by blast
      have "k = 0"
      proof (rule ccontr)
        assume "k \<noteq> 0"
        then have "0 < k" by simp
        with k(2) occ show False by fastforce
      qed
      with k(1) have "match_here (c # cs) = Some v"
        by (simp add: match_here_iff)
      with Some show "v = w" by simp
    next
      assume "v = w"
      with occ have "id_occurrence (drop 0 (c # cs)) v \<and> (\<forall>j<0. \<forall>w. \<not> id_occurrence (drop j (c # cs)) w)"
        by simp
      then show "\<exists>k\<le>length (c # cs). id_occurrence (drop k (c # cs)) v
        \<and> (\<forall>j<k. \<forall>w. \<not> id_occurrence (drop j (c # cs)) w)"
        by blast
    qed
    with Some show ?thesis by auto
  next
    case None
    then have no: "\<not> id_occurrence (c # cs) w" for w
      using match_here_iff [of "c # cs" w] by simp
    have "(\<exists>k\<le>length (c # cs). id_occurrence (drop k (c # cs)) v
        \<and> (\<forall>j<k. \<forall>w. \<not> id_occurrence (drop j (c # cs)) w))
      \<longleftrightarrow> (\<exists>k\<le>length cs. id_occurrence (drop k cs) v
        \<and> (\<forall>j<k. \<forall>w. \<not> id_occurrence (drop j cs) w))"
      (is "?L \<longleftrightarrow> ?R")
    proof
      assume ?L
      then obtain k where k: "k \<le> length (c # cs)" "id_occurrence (drop k (c # cs)) v"
        "\<forall>j<k. \<forall>w. \<not> id_occurrence (drop j (c # cs)) w"
        by blast
      from k(2) no have "k \<noteq> 0"
        by (cases k) auto
      then obtain k' where k': "k = Suc k'"
        by (cases k) auto
      have "\<forall>j<k'. \<forall>w. \<not> id_occurrence (drop j cs) w"
      proof (intro allI impI)
        fix j w assume "j < k'"
        then have "Suc j < k" by (simp add: k')
        with k(3) have "\<not> id_occurrence (drop (Suc j) (c # cs)) w" by blast
        then show "\<not> id_occurrence (drop j cs) w" by simp
      qed
      with k(1,2) k' show ?R
        by auto
    next
      assume ?R
      then obtain k where k: "k \<le> length cs" "id_occurrence (drop k cs) v"
        "\<forall>j<k. \<forall>w. \<not> id_occurrence (drop j cs) w"
        by blast
      have "\<forall>j<Suc k. \<forall>w. \<not> id_occurrence (drop j (c # cs)) w"
      proof (intro allI impI)
        fix j w assume j: "j < Suc k"
        show "\<not> id_occurrence (drop j (c # cs)) w"
        proof (cases j)
          case 0
          with no show ?thesis by simp
        next
          case (Suc j')
          with j k(3) show ?thesis by simp
        qed
      qed
      with k(1,2) have "Suc k \<le> length (c # cs) \<and> id_occurrence (drop (Suc k) (c # cs)) v
          \<and> (\<forall>j<Suc k. \<forall>w. \<not> id_occurrence (drop j (c # cs)) w)"
        by simp
      then show ?L by blast
    qed
    with None Cons.IH show ?thesis by simp
  qed
qed

subsection \<open>Claim on the partial argument extractor\<close>

text \<open>
  Claim C7. For a call id whose signal has not been sent, the signals written for it
  by any sequence of deltas are at most one: the group of the leftmost match in the
  accumulated buffer at the first delta after which the buffer has a match. For a call id
  whose signal has been sent, no delta writes another. In both cases at most one signal is
  added. A match is an occurrence of \<open>"id"\<close>, white space, a colon, white space and
  a non-empty value between double quotes, and \<open>id_match\<close> yields the value of the
  leftmost one.
\<close>

theorem early_signal_once:
  "(cid \<notin> sentEditingStart st \<longrightarrow>
      signals cid (onUpsertInputDeltas ds st) =
        signals cid st @
          (case first_match (input_buffer st cid) (deltas_of cid ds) of
             Some v \<Rightarrow> [\<lparr>es_screenId = v, es_toolCallId = cid\<rparr>]
           | None \<Rightarrow> []))
   \<and> (cid \<in> sentEditingStart st \<longrightarrow>
        signals cid (onUpsertInputDeltas ds st) = signals cid st)
   \<and> (\<exists>extra. signals cid (onUpsertInputDeltas ds st) = signals cid st @ extra
         \<and> length extra \<le> 1)
   \<and> (id_match s = Some v \<longleftrightarrow>
        (\<exists>k\<le>length s. id_occurrence (drop k s) v
           \<and> (\<forall>j<k. \<forall>w. \<not> id_occurrence (drop j s) w)))"
proof -
  have most: "\<exists>extra. signals cid (onUpsertInputDeltas ds st) = signals cid st @ extra
         \<and> length extra \<le> 1"
  proof (cases "cid \<in> sentEditingStart st")
    case True
    then show ?thesis
      using run_latched [of cid st ds] by simp
  next
    case False
    then show ?thesis
      using run_fresh [of cid st ds] by (simp split: option.split)
  qed
  show ?thesis
    using run_fresh [of cid st ds] run_latched [of cid st ds] most id_match_iff [of s v]
    by blast
qed

text \<open>
  C7 on deltas of two calls: \<open>call1\<close> gets one signal, for \<open>login\<close>, split
  over two deltas, and the later ids \<open>x\<close> and \<open>late\<close> are ignored.
\<close>

theorem early_signal_once_witness:
  "''call1'' \<notin> sentEditingStart initial_extractor
   \<and> signals ''call1'' (onUpsertInputDeltas example_deltas initial_extractor)
      = [\<lparr>es_screenId = ''login'', es_toolCallId = ''call1''\<rparr>]
   \<and> signals ''call2'' (onUpsertInputDeltas example_deltas initial_extractor)
      = [\<lparr>es_screenId = ''other'', es_toolCallId = ''call2''\<rparr>]"
proof -
  have fresh: "c \<notin> sentEditingStart initial_extractor" for c
    by (simp add: initial_extractor_def)
  have none: "signals c initial_extractor = []" "input_buffer initial_extractor c = []" for c
    by (simp_all add: signals_def input_buffer_def initial_extractor_def)
  have m1: "first_match [] (deltas_of ''call1'' example_deltas) = Some ''login''"
    by (simp add: example_deltas_def match_here_def is_js_space_def dquote_def)
  have m2: "first_match [] (deltas_of ''call2'' example_deltas) = Some ''other''"
    by (simp add: example_deltas_def match_here_def is_js_space_def dquote_def)
  from early_signal_once [of "''call1''" initial_extractor example_deltas]
    early_signal_once [of "''call2''" initial_extractor example_deltas]
  show ?thesis
    by (simp add: fresh none m1 m2)
qed

end
